theory Spec2Isabelle
  imports Main "HOL-Library.Multiset"
begin

section \<open>The B+ tree of b\_pluss\_tree.cc as a program over an explicit store\<close>

text \<open>
  The source builds the tree out of heap objects held by \<^verbatim>\<open>std::shared_ptr\<close>, compares
  pointers by identity (\<^verbatim>\<open>leaf == root_\<close>, \<^verbatim>\<open>ptr == child\<close>) and mutates nodes in place.
  The model keeps all of this: a store is a list of nodes, an address is an index into
  it, \<^verbatim>\<open>std::make_shared\<close> appends a node and returns the new index, a null pointer is
  \<open>None\<close>, and a write through a pointer is a list update.

  Keys and values are C++ \<^verbatim>\<open>int\<close>s. The program only copies and compares them, it never
  computes with them, so they are modelled by \<open>int\<close>: no operation can wrap around.

  Every function returns an \<open>option\<close>. \<open>None\<close> stands for an execution that does not
  return normally: a loop that runs forever, or undefined behaviour of the C++ code
  (an index outside a vector, \<^verbatim>\<open>front()\<close> of an empty vector, a null or a wrongly cast
  pointer dereferenced). The theorems below show that neither happens in a tree that
  was built by insertions.
\<close>

type_synonym addr = nat

definition kOrder :: nat where
  "kOrder = 4"

datatype BPlusNode =
    BPlusLeafNode "int list" "int list" "addr option"
  | BPlusInternalNode "int list" "addr list"

text \<open>The fields of a leaf are \<^verbatim>\<open>keys_\<close>, \<^verbatim>\<open>values_\<close> and \<^verbatim>\<open>next_\<close>; those of an internal
  node are \<^verbatim>\<open>keys_\<close> and \<^verbatim>\<open>childPointers_\<close>. The flag \<^verbatim>\<open>isLeaf_\<close> is the constructor.\<close>

fun isLeaf :: "BPlusNode \<Rightarrow> bool" where
  "isLeaf (BPlusLeafNode _ _ _) = True"
| "isLeaf (BPlusInternalNode _ _) = False"

fun nodeKeys :: "BPlusNode \<Rightarrow> int list" where
  "nodeKeys (BPlusLeafNode ks _ _) = ks"
| "nodeKeys (BPlusInternalNode ks _) = ks"

fun leafValues :: "BPlusNode \<Rightarrow> int list" where
  "leafValues (BPlusLeafNode _ vs _) = vs"
| "leafValues (BPlusInternalNode _ _) = []"

fun leafNext :: "BPlusNode \<Rightarrow> addr option" where
  "leafNext (BPlusLeafNode _ _ nx) = nx"
| "leafNext (BPlusInternalNode _ _) = None"

fun childPointers :: "BPlusNode \<Rightarrow> addr list" where
  "childPointers (BPlusLeafNode _ _ _) = []"
| "childPointers (BPlusInternalNode _ cs) = cs"

record BPlusTree =
  heap :: "BPlusNode list"
  root :: "addr option"

text \<open>The constructor \<^verbatim>\<open>BPlusTree() : root_(nullptr)\<close>.\<close>

definition emptyTree :: BPlusTree where
  "emptyTree = \<lparr>heap = [], root = None\<rparr>"

text \<open>An insertion ends at one of its \<^verbatim>\<open>return\<close> statements or at the end of a body. The
  two early returns taken when \<^verbatim>\<open>findParent\<close> yields no parent are recorded as
  \<open>Abandoned\<close>, every other way of returning as \<open>Completed\<close>; the C++ caller cannot
  tell the difference, and \<open>treeOf\<close> forgets it.\<close>

datatype outcome = Completed BPlusTree | Abandoned BPlusTree

fun treeOf :: "outcome \<Rightarrow> BPlusTree" where
  "treeOf (Completed t) = t"
| "treeOf (Abandoned t) = t"

subsection \<open>findLeaf\<close>

text \<open>The inner loop \<^verbatim>\<open>while (i < size && key >= keys_[i]) i++\<close>, started at \<open>i = 0\<close>.\<close>

fun scanKeys :: "int \<Rightarrow> int list \<Rightarrow> nat" where
  "scanKeys key [] = 0"
| "scanKeys key (k # ks) = (if key \<ge> k then Suc (scanKeys key ks) else 0)"

text \<open>The outer loop \<^verbatim>\<open>while (current && !current->isLeaf_)\<close>.\<close>

partial_function (option) findLeafLoop ::
    "BPlusNode list \<Rightarrow> addr option \<Rightarrow> int \<Rightarrow> addr option option" where
  "findLeafLoop h current key =
     (case current of
        None \<Rightarrow> Some None
      | Some c \<Rightarrow>
          if c < length h then
            (case h ! c of
               BPlusLeafNode _ _ _ \<Rightarrow> Some (Some c)
             | BPlusInternalNode ks cs \<Rightarrow>
                 (let i = scanKeys key ks in
                  if i < length cs then findLeafLoop h (Some (cs ! i)) key else None))
          else None)"

declare findLeafLoop.simps [code]

definition findLeaf :: "BPlusTree \<Rightarrow> int \<Rightarrow> addr option option" where
  "findLeaf t key = findLeafLoop (heap t) (root t) key"

subsection \<open>findParent\<close>

text \<open>\<open>findParentLoop h current ptrs child\<close> is the \<^verbatim>\<open>for (auto ptr : childPointers_)\<close> loop of
  \<^verbatim>\<open>findParent(current, child)\<close> with \<open>ptrs\<close> still to visit; the recursive call
  \<^verbatim>\<open>findParent(ptr, child)\<close> on an internal \<open>ptr\<close> is the loop over the children of
  \<open>ptr\<close>. The inner \<open>option\<close> is the pointer returned (\<open>None\<close> for \<^verbatim>\<open>nullptr\<close>).\<close>

partial_function (option) findParentLoop ::
    "BPlusNode list \<Rightarrow> addr \<Rightarrow> addr list \<Rightarrow> addr \<Rightarrow> addr option option" where
  "findParentLoop h current ptrs child =
     (case ptrs of
        [] \<Rightarrow> Some None
      | ptr # rest \<Rightarrow>
          if ptr = child then Some (Some current)
          else if ptr < length h then
            (case h ! ptr of
               BPlusLeafNode _ _ _ \<Rightarrow> findParentLoop h current rest child
             | BPlusInternalNode _ cs \<Rightarrow>
                 Option.bind (findParentLoop h ptr cs child)
                   (\<lambda>candidate. case candidate of
                        Some p \<Rightarrow> Some (Some p)
                      | None \<Rightarrow> findParentLoop h current rest child))
          else None)"

declare findParentLoop.simps [code]

definition findParent :: "BPlusNode list \<Rightarrow> addr option \<Rightarrow> addr \<Rightarrow> addr option option" where
  "findParent h current child =
     (case current of
        None \<Rightarrow> Some None
      | Some c \<Rightarrow>
          if c < length h then
            (case h ! c of
               BPlusLeafNode _ _ _ \<Rightarrow> Some None
             | BPlusInternalNode _ cs \<Rightarrow> findParentLoop h c cs child)
          else None)"

subsection \<open>Splitting internal nodes and promoting keys\<close>

text \<open>The loop \<^verbatim>\<open>while (idx < size && childPointers_[idx] != leftChild) idx++\<close>.\<close>

fun childIndex :: "addr list \<Rightarrow> addr \<Rightarrow> nat" where
  "childIndex [] leftChild = 0"
| "childIndex (c # cs) leftChild = (if c \<noteq> leftChild then Suc (childIndex cs leftChild) else 0)"

text \<open>\<^verbatim>\<open>v.insert(v.begin() + i, x)\<close>; undefined when \<open>i\<close> is beyond the end.\<close>

definition insertAt :: "nat \<Rightarrow> 'a \<Rightarrow> 'a list \<Rightarrow> 'a list option" where
  "insertAt i x xs = (if i \<le> length xs then Some (take i xs @ x # drop i xs) else None)"

text \<open>The writes of \<^verbatim>\<open>insertInternalNode\<close> and \<^verbatim>\<open>insertInternalUpKey\<close> (their bodies are the
  same up to the static type of the children) once the parent is known: the key goes
  to position \<open>idx\<close>, the right child to position \<open>idx + 1\<close>.\<close>

definition attach :: "BPlusTree \<Rightarrow> addr \<Rightarrow> int \<Rightarrow> addr \<Rightarrow> addr \<Rightarrow> BPlusTree option" where
  "attach t parent key leftChild rightChild =
     (if parent < length (heap t) then
        (case heap t ! parent of
           BPlusLeafNode _ _ _ \<Rightarrow> None
         | BPlusInternalNode ks cs \<Rightarrow>
             (let idx = childIndex cs leftChild in
              case insertAt idx key ks of
                None \<Rightarrow> None
              | Some ks' \<Rightarrow>
                  (case insertAt (idx + 1) rightChild cs of
                     None \<Rightarrow> None
                   | Some cs' \<Rightarrow>
                       Some (t\<lparr>heap := (heap t)[parent := BPlusInternalNode ks' cs']\<rparr>))))
      else None)"

text \<open>The first half of \<^verbatim>\<open>splitInternalNode\<close>, up to the test \<^verbatim>\<open>internalNode == root_\<close>: the
  new node is allocated, the keys after \<open>midIndex\<close> and the children from
  \<open>midIndex + 1\<close> on are copied to it and erased from the original together with the
  key at \<open>midIndex\<close>. The result is the new state, \<open>upKey\<close> and the new node.\<close>

definition splitInternalHalves :: "BPlusTree \<Rightarrow> addr \<Rightarrow> (BPlusTree \<times> int \<times> addr) option" where
  "splitInternalHalves t internalNode =
     (if internalNode < length (heap t) then
        (case heap t ! internalNode of
           BPlusLeafNode _ _ _ \<Rightarrow> None
         | BPlusInternalNode ks cs \<Rightarrow>
             (let newInternal = length (heap t);
                  midIndex = length ks div 2
              in if midIndex < length ks \<and> midIndex + 1 \<le> length cs then
                   Some (t\<lparr>heap := (heap t @ [BPlusInternalNode (drop (midIndex + 1) ks)
                                                    (drop (midIndex + 1) cs)])
                                    [internalNode := BPlusInternalNode (take midIndex ks)
                                                       (take (midIndex + 1) cs)]\<rparr>,
                         ks ! midIndex, newInternal)
                 else None))
      else None)"

text \<open>The branch \<^verbatim>\<open>if (x == root_)\<close> of both split functions: a new root with one key and
  two children.\<close>

definition growRoot :: "BPlusTree \<Rightarrow> int \<Rightarrow> addr \<Rightarrow> addr \<Rightarrow> BPlusTree" where
  "growRoot t key leftChild rightChild =
     t\<lparr>heap := heap t @ [BPlusInternalNode [key] [leftChild, rightChild]],
       root := Some (length (heap t))\<rparr>"

text \<open>\<^verbatim>\<open>splitInternalNode\<close> and \<^verbatim>\<open>insertInternalUpKey\<close> call each other. The recursion is
  defined for \<open>splitInternalNode\<close>, with the body of \<open>insertInternalUpKey\<close> in the
  place of its call; \<open>insertInternalUpKey\<close> is defined next, and
  \<open>splitInternalNode_unfold\<close> gives the equation in the shape of the source.\<close>

partial_function (option) splitInternalNode :: "BPlusTree \<Rightarrow> addr \<Rightarrow> outcome option" where
  "splitInternalNode t internalNode =
     (case splitInternalHalves t internalNode of
        None \<Rightarrow> None
      | Some (t1, upKey, newInternal) \<Rightarrow>
          if Some internalNode = root t1 then
            Some (Completed (growRoot t1 upKey internalNode newInternal))
          else
            (case findParent (heap t1) (root t1) internalNode of
               None \<Rightarrow> None
             | Some None \<Rightarrow> Some (Abandoned t1)
             | Some (Some parent) \<Rightarrow>
                 (case attach t1 parent upKey internalNode newInternal of
                    None \<Rightarrow> None
                  | Some t2 \<Rightarrow>
                      if length (nodeKeys (heap t2 ! parent)) \<ge> kOrder
                      then splitInternalNode t2 parent
                      else Some (Completed t2))))"

declare splitInternalNode.simps [code]

definition insertInternalUpKey :: "BPlusTree \<Rightarrow> int \<Rightarrow> addr \<Rightarrow> addr \<Rightarrow> outcome option" where
  "insertInternalUpKey t key leftChild rightChild =
     (case findParent (heap t) (root t) leftChild of
        None \<Rightarrow> None
      | Some None \<Rightarrow> Some (Abandoned t)
      | Some (Some parent) \<Rightarrow>
          (case attach t parent key leftChild rightChild of
             None \<Rightarrow> None
           | Some t2 \<Rightarrow>
               if length (nodeKeys (heap t2 ! parent)) \<ge> kOrder
               then splitInternalNode t2 parent
               else Some (Completed t2)))"

definition insertInternalNode :: "BPlusTree \<Rightarrow> int \<Rightarrow> addr \<Rightarrow> addr \<Rightarrow> outcome option" where
  "insertInternalNode t key leftChild rightChild =
     (case findParent (heap t) (root t) leftChild of
        None \<Rightarrow> None
      | Some None \<Rightarrow> Some (Abandoned t)
      | Some (Some parent) \<Rightarrow>
          (case attach t parent key leftChild rightChild of
             None \<Rightarrow> None
           | Some t2 \<Rightarrow>
               if length (nodeKeys (heap t2 ! parent)) \<ge> kOrder
               then splitInternalNode t2 parent
               else Some (Completed t2)))"

subsection \<open>Splitting leaves\<close>

text \<open>The first half of \<^verbatim>\<open>splitLeafNode\<close>, up to the test \<^verbatim>\<open>leaf == root_\<close>. The result is
  the new state, \<open>newKey\<close> (\<^verbatim>\<open>newLeaf->keys_.front()\<close>) and the new leaf.\<close>

definition splitLeafHalves :: "BPlusTree \<Rightarrow> addr \<Rightarrow> (BPlusTree \<times> int \<times> addr) option" where
  "splitLeafHalves t leaf =
     (if leaf < length (heap t) then
        (case heap t ! leaf of
           BPlusInternalNode _ _ \<Rightarrow> None
         | BPlusLeafNode ks vs nx \<Rightarrow>
             (let newLeaf = length (heap t);
                  mid = length ks div 2
              in if mid \<le> length vs \<and> drop mid ks \<noteq> [] then
                   Some (t\<lparr>heap := (heap t @ [BPlusLeafNode (drop mid ks) (drop mid vs) nx])
                                    [leaf := BPlusLeafNode (take mid ks) (take mid vs)
                                               (Some newLeaf)]\<rparr>,
                         hd (drop mid ks), newLeaf)
                 else None))
      else None)"

definition splitLeafNode :: "BPlusTree \<Rightarrow> addr \<Rightarrow> outcome option" where
  "splitLeafNode t leaf =
     (case splitLeafHalves t leaf of
        None \<Rightarrow> None
      | Some (t1, newKey, newLeaf) \<Rightarrow>
          if Some leaf = root t1 then Some (Completed (growRoot t1 newKey leaf newLeaf))
          else insertInternalNode t1 newKey leaf newLeaf)"

subsection \<open>search and insert\<close>

text \<open>The loop \<^verbatim>\<open>for (i = 0; i < keys_.size(); i++) if (keys_[i] == key)\<close>: the first index
  holding the key, if any.\<close>

fun keyIndex :: "int list \<Rightarrow> int \<Rightarrow> nat option" where
  "keyIndex [] key = None"
| "keyIndex (k # ks) key = (if k = key then Some 0 else map_option Suc (keyIndex ks key))"

text \<open>The inner \<open>option\<close> of the result is the \<^verbatim>\<open>std::optional<int>\<close> returned.\<close>

definition search :: "BPlusTree \<Rightarrow> int \<Rightarrow> int option option" where
  "search t key =
     (case root t of
        None \<Rightarrow> Some None
      | Some _ \<Rightarrow>
          (case findLeaf t key of
             None \<Rightarrow> None
           | Some None \<Rightarrow> Some None
           | Some (Some leaf) \<Rightarrow>
               if leaf < length (heap t) then
                 (case heap t ! leaf of
                    BPlusInternalNode _ _ \<Rightarrow> None
                  | BPlusLeafNode ks vs _ \<Rightarrow>
                      (case keyIndex ks key of
                         None \<Rightarrow> Some None
                       | Some i \<Rightarrow> if i < length vs then Some (Some (vs ! i)) else None))
               else None))"

text \<open>The loop \<^verbatim>\<open>for (i = size - 1; i > 0; i--)\<close> that swaps the appended pair down while it
  is smaller than its left neighbour; \<open>bubble i ks vs\<close> is the loop at index \<open>i\<close>. The
  keys are compared first; the values are only touched by a swap.\<close>

fun bubble :: "nat \<Rightarrow> int list \<Rightarrow> int list \<Rightarrow> (int list \<times> int list) option" where
  "bubble 0 ks vs = Some (ks, vs)"
| "bubble (Suc j) ks vs =
     (if Suc j < length ks then
        (if ks ! Suc j < ks ! j then
           (if Suc j < length vs then
              bubble j (ks[Suc j := ks ! j, j := ks ! Suc j]) (vs[Suc j := vs ! j, j := vs ! Suc j])
            else None)
         else Some (ks, vs))
      else None)"

definition insert_tree :: "BPlusTree \<Rightarrow> int \<Rightarrow> int \<Rightarrow> outcome option" where
  "insert_tree t key val =
     (case root t of
        None \<Rightarrow>
          Some (Completed (t\<lparr>heap := heap t @ [BPlusLeafNode [key] [val] None],
                             root := Some (length (heap t))\<rparr>))
      | Some _ \<Rightarrow>
          (case findLeaf t key of
             None \<Rightarrow> None
           | Some None \<Rightarrow> None
           | Some (Some leaf) \<Rightarrow>
               if leaf < length (heap t) then
                 (case heap t ! leaf of
                    BPlusInternalNode _ _ \<Rightarrow> None
                  | BPlusLeafNode ks vs nx \<Rightarrow>
                      (case keyIndex ks key of
                         Some i \<Rightarrow>
                           if i < length vs then
                             Some (Completed
                               (t\<lparr>heap := (heap t)[leaf := BPlusLeafNode ks (vs[i := val]) nx]\<rparr>))
                           else None
                       | None \<Rightarrow>
                           (case bubble (length ks) (ks @ [key]) (vs @ [val]) of
                              None \<Rightarrow> None
                            | Some (ks', vs') \<Rightarrow>
                                (let t1 = t\<lparr>heap := (heap t)[leaf := BPlusLeafNode ks' vs' nx]\<rparr>
                                 in if length ks' \<ge> kOrder then splitLeafNode t1 leaf
                                    else Some (Completed t1)))))
               else None))"

text \<open>A sequence of \<^verbatim>\<open>insert\<close> calls, as \<^verbatim>\<open>main\<close> issues them.\<close>

fun inserts :: "BPlusTree \<Rightarrow> (int \<times> int) list \<Rightarrow> BPlusTree option" where
  "inserts t [] = Some t"
| "inserts t ((key, val) # kvs) =
     (case insert_tree t key val of
        None \<Rightarrow> None
      | Some out \<Rightarrow> inserts (treeOf out) kvs)"

subsection \<open>Shape of the root\<close>

text \<open>A tree has at least two levels when its root is an internal node, and at least
  three when some child of the root is an internal node too.\<close>

definition rootIsInternal :: "BPlusTree \<Rightarrow> bool" where
  "rootIsInternal t =
     (case root t of
        None \<Rightarrow> False
      | Some r \<Rightarrow> r < length (heap t) \<and> \<not> isLeaf (heap t ! r))"

definition hasInternalChild :: "BPlusTree \<Rightarrow> bool" where
  "hasInternalChild t =
     (case root t of
        None \<Rightarrow> False
      | Some r \<Rightarrow>
          r < length (heap t) \<and>
          list_ex (\<lambda>c. c < length (heap t) \<and> \<not> isLeaf (heap t ! c))
            (childPointers (heap t ! r)))"

text \<open>The nine insertions of \<^verbatim>\<open>main\<close>.\<close>

definition demoInserts :: "(int \<times> int) list" where
  "demoInserts = [(10, 100), (20, 200), (5, 50), (6, 60), (15, 150), (25, 250), (2, 20),
                  (16, 160), (18, 180)]"

section \<open>Notions of the specification and of the proofs\<close>

text \<open>
  The claims speak of the nodes reachable from the root, of the entries the leaves hold
  and of the ranges the separators give to the children; these notions are defined on
  the store. The proofs describe the part of the store that the root reaches by a tree
  whose nodes carry their addresses (\<open>atree\<close>), a leaf together with the path to it by a
  list of frames, innermost first (\<open>plug\<close>), and the effect of an insertion on such a
  tree by \<open>insLeaf\<close> and \<open>rebuild\<close>. None of these definitions is part of the program.
\<close>

datatype atree =
    ALeaf addr "int list" "int list" "addr option"
  | ANode addr "int list" "atree list"

datatype frame = Frame addr "int list" "atree list" "atree list"

fun addrOf :: "atree \<Rightarrow> addr" where
  "addrOf (ALeaf a _ _ _) = a"
| "addrOf (ANode a _ _) = a"

fun addrs :: "atree \<Rightarrow> addr list" where
  "addrs (ALeaf a _ _ _) = [a]"
| "addrs (ANode a _ ts) = a # concat (map addrs ts)"

fun repr :: "BPlusNode list \<Rightarrow> atree \<Rightarrow> bool" where
  "repr h (ALeaf a ks vs nx) = (a < length h \<and> h ! a = BPlusLeafNode ks vs nx)"
| "repr h (ANode a ks ts) =
     (a < length h \<and> h ! a = BPlusInternalNode ks (map addrOf ts) \<and> (\<forall>t \<in> set ts. repr h t))"

fun faddr :: "frame \<Rightarrow> addr" where
  "faddr (Frame p _ _ _) = p"

fun plug1 :: "frame \<Rightarrow> atree \<Rightarrow> atree" where
  "plug1 (Frame p ks ls rs) t = ANode p ks (ls @ t # rs)"

fun plug :: "frame list \<Rightarrow> atree \<Rightarrow> atree" where
  "plug [] t = t"
| "plug (f # C) t = plug C (plug1 f t)"

fun ctxAddrs :: "frame list \<Rightarrow> addr list" where
  "ctxAddrs [] = []"
| "ctxAddrs (Frame p ks ls rs # C) = p # concat (map addrs ls) @ concat (map addrs rs) @ ctxAddrs C"

fun reprCtx :: "BPlusNode list \<Rightarrow> frame list \<Rightarrow> addr \<Rightarrow> bool" where
  "reprCtx h [] a = True"
| "reprCtx h (Frame p ks ls rs # C) a =
     (p < length h \<and> h ! p = BPlusInternalNode ks (map addrOf ls @ a # map addrOf rs)
      \<and> (\<forall>t \<in> set ls. repr h t) \<and> (\<forall>t \<in> set rs. repr h t) \<and> reprCtx h C p)"

fun geLo :: "int option \<Rightarrow> int \<Rightarrow> bool" where
  "geLo None k = True"
| "geLo (Some l) k = (l \<le> k)"

fun gtLo :: "int option \<Rightarrow> int \<Rightarrow> bool" where
  "gtLo None k = True"
| "gtLo (Some l) k = (l < k)"

fun ltHi :: "int option \<Rightarrow> int \<Rightarrow> bool" where
  "ltHi None k = True"
| "ltHi (Some u) k = (k < u)"

fun ordered :: "int option \<Rightarrow> int option \<Rightarrow> atree \<Rightarrow> bool"
  and orderedList :: "int option \<Rightarrow> int list \<Rightarrow> int option \<Rightarrow> atree list \<Rightarrow> bool" where
  "ordered lo hi (ALeaf a ks vs nx) =
     (length vs = length ks \<and> sorted_wrt (<) ks \<and> (\<forall>k \<in> set ks. geLo lo k \<and> ltHi hi k))"
| "ordered lo hi (ANode a ks ts) = orderedList lo ks hi ts"
| "orderedList lo [] hi [t] = ordered lo hi t"
| "orderedList lo (k # ks) hi (t # ts) =
     (ordered lo (Some k) t \<and> gtLo lo k \<and> ltHi hi k \<and> orderedList (Some k) ks hi ts)"
| "orderedList lo ks hi ts = False"

fun onPath :: "int \<Rightarrow> frame \<Rightarrow> bool" where
  "onPath key (Frame p ks ls rs) = (scanKeys key ks = length ls)"

fun shapeF :: "frame \<Rightarrow> bool" where
  "shapeF (Frame p ks ls rs) = (length ls + length rs = length ks)"

fun keysOf :: "atree \<Rightarrow> int list" where
  "keysOf (ALeaf _ ks _ _) = ks"
| "keysOf (ANode _ ks _) = ks"

fun absorb :: "frame \<Rightarrow> atree \<Rightarrow> int \<Rightarrow> atree \<Rightarrow> atree" where
  "absorb (Frame p ks ls rs) l k r =
     ANode p (take (length ls) ks @ k # drop (length ls) ks) (ls @ l # r # rs)"

fun halves :: "nat \<Rightarrow> atree \<Rightarrow> atree \<times> int \<times> atree" where
  "halves n (ANode p ks ts) =
     (ANode p (take (length ks div 2) ks) (take (Suc (length ks div 2)) ts),
      ks ! (length ks div 2),
      ANode n (drop (Suc (length ks div 2)) ks) (drop (Suc (length ks div 2)) ts))"
| "halves n (ALeaf a ks vs nx) =
     (ALeaf a (take (length ks div 2) ks) (take (length ks div 2) vs) (Some n),
      hd (drop (length ks div 2) ks),
      ALeaf n (drop (length ks div 2) ks) (drop (length ks div 2) vs) nx)"

fun rebuild :: "nat \<Rightarrow> frame list \<Rightarrow> atree \<times> int \<times> atree \<Rightarrow> atree" where
  "rebuild n [] (l, k, r) = ANode n [k] [l, r]"
| "rebuild n (f # C) (l, k, r) =
     (if length (keysOf (absorb f l k r)) \<ge> kOrder
      then rebuild (Suc n) C (halves n (absorb f l k r))
      else plug C (absorb f l k r))"

definition emptyLeaf :: atree where
  "emptyLeaf = ALeaf 0 [] [] None"

fun holeLo :: "int option \<Rightarrow> frame \<Rightarrow> int option" where
  "holeLo lo (Frame p ks ls rs) = (if ls = [] then lo else Some (ks ! (length ls - 1)))"

fun holeHi :: "int option \<Rightarrow> frame \<Rightarrow> int option" where
  "holeHi hi (Frame p ks ls rs) = (if length ls < length ks then Some (ks ! length ls) else hi)"

fun ctxLo :: "frame list \<Rightarrow> int option" where
  "ctxLo [] = None"
| "ctxLo (f # C) = holeLo (ctxLo C) f"

fun ctxHi :: "frame list \<Rightarrow> int option" where
  "ctxHi [] = None"
| "ctxHi (f # C) = holeHi (ctxHi C) f"

fun orderedCtx :: "frame list \<Rightarrow> bool" where
  "orderedCtx [] = True"
| "orderedCtx (f # C) = (ordered (ctxLo C) (ctxHi C) (plug1 f emptyLeaf) \<and> orderedCtx C)"

fun small :: "atree \<Rightarrow> bool" where
  "small (ALeaf a ks vs nx) = (length ks < kOrder)"
| "small (ANode a ks ts) = (length ks < kOrder \<and> (\<forall>t \<in> set ts. small t))"

fun smallF :: "frame \<Rightarrow> bool" where
  "smallF (Frame p ks ls rs) =
     (length ks < kOrder \<and> (\<forall>t \<in> set ls. small t) \<and> (\<forall>t \<in> set rs. small t))"

type_synonym leafrec = "addr \<times> int list \<times> int list \<times> addr option"

fun leaves :: "atree \<Rightarrow> leafrec list" where
  "leaves (ALeaf a ks vs nx) = [(a, ks, vs, nx)]"
| "leaves (ANode a ks ts) = concat (map leaves ts)"

fun preLeaves :: "frame list \<Rightarrow> leafrec list" where
  "preLeaves [] = []"
| "preLeaves (Frame p ks ls rs # C) = preLeaves C @ concat (map leaves ls)"

fun postLeaves :: "frame list \<Rightarrow> leafrec list" where
  "postLeaves [] = []"
| "postLeaves (Frame p ks ls rs # C) = concat (map leaves rs) @ postLeaves C"

fun linked :: "leafrec list \<Rightarrow> addr option \<Rightarrow> bool" where
  "linked [] e = True"
| "linked ((a, ks, vs, nx) # rest) e =
     (nx = (case rest of [] \<Rightarrow> e | x # _ \<Rightarrow> Some (fst x)) \<and> linked rest e)"

fun leafEntries :: "leafrec \<Rightarrow> (int \<times> int) list" where
  "leafEntries (a, ks, vs, nx) = zip ks vs"

definition entries :: "atree \<Rightarrow> (int \<times> int) list" where
  "entries t = concat (map leafEntries (leaves t))"

fun insLeaf :: "nat \<Rightarrow> frame list \<Rightarrow> atree \<Rightarrow> int \<Rightarrow> int \<Rightarrow> atree" where
  "insLeaf n C (ALeaf a ks vs nx) key val =
     (case keyIndex ks key of
        Some i \<Rightarrow> plug C (ALeaf a ks (vs[i := val]) nx)
      | None \<Rightarrow>
          (case bubble (length ks) (ks @ [key]) (vs @ [val]) of
             None \<Rightarrow> plug C (ALeaf a ks vs nx)
           | Some (ks', vs') \<Rightarrow>
               if kOrder \<le> length ks'
               then rebuild (Suc n) C (halves n (ALeaf a ks' vs' nx))
               else plug C (ALeaf a ks' vs' nx)))"
| "insLeaf n C (ANode a ks ts) key val = plug C (ANode a ks ts)"

definition treeInv :: "BPlusTree \<Rightarrow> atree \<Rightarrow> bool" where
  "treeInv t T \<longleftrightarrow>
     root t = Some (addrOf T) \<and> repr (heap t) T \<and> distinct (addrs T)
     \<and> ordered None None T \<and> small T \<and> linked (leaves T) None"

abbreviation preEntries :: "frame list \<Rightarrow> (int \<times> int) list" where
  "preEntries C \<equiv> concat (map leafEntries (preLeaves C))"

abbreviation postEntries :: "frame list \<Rightarrow> (int \<times> int) list" where
  "postEntries C \<equiv> concat (map leafEntries (postLeaves C))"

text \<open>A state together with the finite map it stores.\<close>

definition describes :: "BPlusTree \<Rightarrow> (int \<rightharpoonup> int) \<Rightarrow> bool" where
  "describes t m \<longleftrightarrow>
     (root t = None \<and> m = Map.empty)
     \<or> (\<exists>T. treeInv t T \<and> (\<forall>k v. (k, v) \<in> set (entries T) \<longleftrightarrow> m k = Some v))"

text \<open>\<open>reaches h a b\<close>: node \<open>b\<close> is \<open>a\<close> or is reached from \<open>a\<close> through child pointers.\<close>

inductive reaches :: "BPlusNode list \<Rightarrow> addr \<Rightarrow> addr \<Rightarrow> bool"
  for h :: "BPlusNode list" and a :: addr where
  here: "reaches h a a"
| child: "reaches h a p \<Longrightarrow> p < length h \<Longrightarrow> h ! p = BPlusInternalNode ks cs \<Longrightarrow> c \<in> set cs \<Longrightarrow>
          reaches h a c"

text \<open>\<open>leafHolds t leaf i key val\<close>: the leaf at \<open>leaf\<close>, reachable from the root, holds the
  entry \<open>(key, val)\<close> at position \<open>i\<close>.\<close>

definition leafHolds :: "BPlusTree \<Rightarrow> addr \<Rightarrow> nat \<Rightarrow> int \<Rightarrow> int \<Rightarrow> bool" where
  "leafHolds t leaf i key val \<longleftrightarrow>
     (\<exists>r ks vs nx. root t = Some r \<and> reaches (heap t) r leaf \<and> leaf < length (heap t)
        \<and> heap t ! leaf = BPlusLeafNode ks vs nx
        \<and> i < length ks \<and> i < length vs \<and> ks ! i = key \<and> vs ! i = val)"

fun subtrees :: "atree \<Rightarrow> atree list" where
  "subtrees (ALeaf a ks vs nx) = [ALeaf a ks vs nx]"
| "subtrees (ANode a ks ts) = ANode a ks ts # concat (map subtrees ts)"

text \<open>The value of the most recent insertion with the given key in a sequence of
  insertions, if there is one.\<close>

fun latest :: "(int \<times> int) list \<Rightarrow> int \<Rightarrow> int option" where
  "latest [] key = None"
| "latest ((k, v) # kvs) key =
     (case latest kvs key of
        Some v' \<Rightarrow> Some v'
      | None \<Rightarrow> if k = key then Some v else None)"

text \<open>\<open>covers h key a b\<close>: node \<open>b\<close> is reached from node \<open>a\<close> by descending, at every
  internal node, into a child \<open>i\<close> whose range holds the key: \<open>keys[i-1] \<le> key\<close> when
  \<open>i > 0\<close>, and \<open>key < keys[i]\<close> when \<open>i < keys.length\<close>.\<close>

inductive covers :: "BPlusNode list \<Rightarrow> int \<Rightarrow> addr \<Rightarrow> addr \<Rightarrow> bool"
  for h :: "BPlusNode list" and key :: int and a :: addr where
  start: "covers h key a a"
| down: "covers h key a p \<Longrightarrow> p < length h \<Longrightarrow> h ! p = BPlusInternalNode ks cs \<Longrightarrow>
         i < length cs \<Longrightarrow> (0 < i \<longrightarrow> ks ! (i - 1) \<le> key) \<Longrightarrow> (i < length ks \<longrightarrow> key < ks ! i) \<Longrightarrow>
         covers h key a (cs ! i)"

text \<open>The leaf found from a node by always descending into the first child.\<close>

partial_function (option) leftmostLeaf :: "BPlusNode list \<Rightarrow> addr \<Rightarrow> addr option" where
  "leftmostLeaf h a =
     (if a < length h then
        (case h ! a of
           BPlusLeafNode _ _ _ \<Rightarrow> Some a
         | BPlusInternalNode _ cs \<Rightarrow> (case cs of [] \<Rightarrow> None | c # _ \<Rightarrow> leftmostLeaf h c))
      else None)"

declare leftmostLeaf.simps [code]

text \<open>The leaves visited by following the \<^verbatim>\<open>next_\<close> links from a leaf until the null link.\<close>

partial_function (option) walkLeaves :: "BPlusNode list \<Rightarrow> addr option \<Rightarrow> addr list option" where
  "walkLeaves h cur =
     (case cur of
        None \<Rightarrow> Some []
      | Some a \<Rightarrow>
          if a < length h then
            (case h ! a of
               BPlusLeafNode _ _ nx \<Rightarrow> Option.bind (walkLeaves h nx) (\<lambda>rest. Some (a # rest))
             | BPlusInternalNode _ _ \<Rightarrow> None)
          else None)"

declare walkLeaves.simps [code]

fun isALeaf :: "atree \<Rightarrow> bool" where
  "isALeaf (ALeaf _ _ _ _) = True"
| "isALeaf (ANode _ _ _) = False"

text \<open>\<open>promotes t key val s k a b\<close>: while \<^verbatim>\<open>insert(key, val)\<close> runs from state \<open>t\<close>, the
  promotion of a split (\<^verbatim>\<open>insertInternalNode\<close> after the split of a leaf that is not the
  root, \<^verbatim>\<open>insertInternalUpKey\<close> after the split of an internal node that is not the
  root) is entered in state \<open>s\<close> with the key \<open>k\<close>, the split node \<open>a\<close> as left child and
  the new node \<open>b\<close> as right child. The first rule follows \<open>insert_tree\<close> and
  \<open>splitLeafNode\<close> down to the call, the second follows \<open>insertInternalUpKey\<close> and
  \<open>splitInternalNode\<close> from one call to the next.\<close>

inductive promotes ::
    "BPlusTree \<Rightarrow> int \<Rightarrow> int \<Rightarrow> BPlusTree \<Rightarrow> int \<Rightarrow> addr \<Rightarrow> addr \<Rightarrow> bool"
  for t :: BPlusTree and key :: int and val :: int where
  leaf: "root t = Some r \<Longrightarrow> findLeaf t key = Some (Some leaf) \<Longrightarrow> leaf < length (heap t) \<Longrightarrow>
         heap t ! leaf = BPlusLeafNode ks vs nx \<Longrightarrow> keyIndex ks key = None \<Longrightarrow>
         bubble (length ks) (ks @ [key]) (vs @ [val]) = Some (ks', vs') \<Longrightarrow>
         kOrder \<le> length ks' \<Longrightarrow>
         splitLeafHalves (t\<lparr>heap := (heap t)[leaf := BPlusLeafNode ks' vs' nx]\<rparr>) leaf
           = Some (s, k, b) \<Longrightarrow>
         Some leaf \<noteq> root s \<Longrightarrow>
         promotes t key val s k leaf b"
| up: "promotes t key val s k a b \<Longrightarrow>
       findParent (heap s) (root s) a = Some (Some p) \<Longrightarrow>
       attach s p k a b = Some s2 \<Longrightarrow>
       kOrder \<le> length (nodeKeys (heap s2 ! p)) \<Longrightarrow>
       splitInternalHalves s2 p = Some (s3, k', b') \<Longrightarrow>
       Some p \<noteq> root s3 \<Longrightarrow>
       promotes t key val s3 k' p b'"

text \<open>The state in which a promotion is entered: a tree with a hole at the left child,
  and the right child beside it; the nodes above the hole are not full, and the key to
  promote separates the two children within the bounds of the hole.\<close>

definition pending :: "BPlusTree \<Rightarrow> int \<Rightarrow> addr \<Rightarrow> addr \<Rightarrow> bool" where
  "pending s k a b \<longleftrightarrow>
     (\<exists>f C l r. root s = Some (addrOf (plug (f # C) l))
        \<and> reprCtx (heap s) (f # C) (addrOf l) \<and> repr (heap s) l \<and> repr (heap s) r
        \<and> distinct (ctxAddrs (f # C) @ addrs l @ addrs r)
        \<and> list_all shapeF (f # C) \<and> a = addrOf l \<and> b = addrOf r
        \<and> list_all smallF (f # C) \<and> orderedCtx (f # C)
        \<and> ordered (ctxLo (f # C)) (Some k) l \<and> ordered (Some k) (ctxHi (f # C)) r
        \<and> gtLo (ctxLo (f # C)) k \<and> ltHi (ctxHi (f # C)) k)"

text \<open>\<open>splitsInternal t key val s p\<close>: while \<^verbatim>\<open>insert(key, val)\<close> runs from state \<open>t\<close>,
  \<^verbatim>\<open>splitInternalNode\<close> is entered in state \<open>s\<close> on the node \<open>p\<close>. Its two call sites are the
  last statements of \<^verbatim>\<open>insertInternalNode\<close> and \<^verbatim>\<open>insertInternalUpKey\<close>: a promotion has
  found the parent \<open>p\<close>, has attached key and right child to it, and \<open>p\<close> has reached
  \<open>kOrder\<close> keys.\<close>

inductive splitsInternal :: "BPlusTree \<Rightarrow> int \<Rightarrow> int \<Rightarrow> BPlusTree \<Rightarrow> addr \<Rightarrow> bool"
  for t :: BPlusTree and key :: int and val :: int where
  full: "promotes t key val s k a b \<Longrightarrow>
         findParent (heap s) (root s) a = Some (Some p) \<Longrightarrow>
         attach s p k a b = Some s2 \<Longrightarrow>
         kOrder \<le> length (nodeKeys (heap s2 ! p)) \<Longrightarrow>
         splitsInternal t key val s2 p"

section \<open>The two split functions\<close>

lemma splitInternalNode_unfold:
  "splitInternalNode t internalNode =
     (case splitInternalHalves t internalNode of
        None \<Rightarrow> None
      | Some (t1, upKey, newInternal) \<Rightarrow>
          if Some internalNode = root t1 then
            Some (Completed (growRoot t1 upKey internalNode newInternal))
          else insertInternalUpKey t1 upKey internalNode newInternal)"
  by (subst splitInternalNode.simps) (simp add: insertInternalUpKey_def split: option.splits)

lemma insertInternalNode_eq: "insertInternalNode = insertInternalUpKey"
  by (simp add: fun_eq_iff insertInternalNode_def insertInternalUpKey_def)

text \<open>
  Claim C6. A leaf with \<open>kOrder = 4\<close> entries is split at \<open>mid = 2\<close>: the entries at
  positions 2 and 3 go to a newly allocated leaf, those at positions 0 and 1 stay; the new
  leaf takes over the old \<^verbatim>\<open>next_\<close> link and the original leaf now links to the new one;
  the promoted key is the first key of the new leaf; when the leaf was the root, the new
  root is an internal node with that single key and the children (original, new);
  otherwise key and new leaf are handed to \<open>insertInternalNode\<close>.
\<close>

theorem leaf_split:
  assumes "leaf < length (heap t)"
    and "heap t ! leaf = BPlusLeafNode ks vs nx"
    and "length ks = kOrder" and "length vs = kOrder"
  shows "let newLeaf = length (heap t);
             newKey = hd (drop 2 ks);
             t1 = t\<lparr>heap := (heap t @ [BPlusLeafNode (drop 2 ks) (drop 2 vs) nx])
                               [leaf := BPlusLeafNode (take 2 ks) (take 2 vs) (Some newLeaf)]\<rparr>
         in splitLeafHalves t leaf = Some (t1, newKey, newLeaf)
          \<and> newKey = ks ! 2
          \<and> ks = take 2 ks @ drop 2 ks \<and> vs = take 2 vs @ drop 2 vs
          \<and> length (take 2 ks) = 2 \<and> length (drop 2 ks) = 2
          \<and> splitLeafNode t leaf =
              (if root t = Some leaf
               then Some (Completed
                      (t1\<lparr>heap := heap t1 @ [BPlusInternalNode [newKey] [leaf, newLeaf]],
                          root := Some (length (heap t1))\<rparr>))
               else insertInternalNode t1 newKey leaf newLeaf)"
  using assms
  by (simp add: splitLeafHalves_def splitLeafNode_def Let_def kOrder_def growRoot_def
      hd_drop_conv_nth eq_commute [of "Some leaf"])

theorem leaf_split_witness:
  "splitLeafNode \<lparr>heap = [BPlusLeafNode [5, 6, 10, 20] [50, 60, 100, 200] None], root = Some 0\<rparr> 0
     = Some (Completed \<lparr>heap = [BPlusLeafNode [5, 6] [50, 60] (Some 1),
                                 BPlusLeafNode [10, 20] [100, 200] None,
                                 BPlusInternalNode [10] [0, 1]],
                         root = Some 2\<rparr>)"
  using leaf_split [of 0 "\<lparr>heap = [BPlusLeafNode [5, 6, 10, 20] [50, 60, 100, 200] None], root = Some 0\<rparr>"
      "[5, 6, 10, 20]" "[50, 60, 100, 200]" None]
  by (simp add: kOrder_def Let_def)

text \<open>The split of an internal node with \<open>kOrder\<close> keys, in any store.\<close>

lemma splitInternalNode_four:
  assumes "internalNode < length (heap t)"
    and "heap t ! internalNode = BPlusInternalNode ks cs"
    and "length ks = kOrder" and "length cs = kOrder + 1"
  shows "let newInternal = length (heap t);
             upKey = ks ! 2;
             t1 = t\<lparr>heap := (heap t @ [BPlusInternalNode (drop 3 ks) (drop 3 cs)])
                               [internalNode := BPlusInternalNode (take 2 ks) (take 3 cs)]\<rparr>
         in splitInternalHalves t internalNode = Some (t1, upKey, newInternal)
          \<and> ks = take 2 ks @ upKey # drop 3 ks \<and> cs = take 3 cs @ drop 3 cs
          \<and> (distinct ks \<longrightarrow> upKey \<notin> set (take 2 ks) \<and> upKey \<notin> set (drop 3 ks))
          \<and> splitInternalNode t internalNode =
              (if root t = Some internalNode
               then Some (Completed
                      (t1\<lparr>heap := heap t1 @ [BPlusInternalNode [upKey] [internalNode, newInternal]],
                          root := Some (length (heap t1))\<rparr>))
               else insertInternalUpKey t1 upKey internalNode newInternal)"
proof -
  have ks: "ks = take 2 ks @ ks ! 2 # drop 3 ks"
    using assms(3) id_take_nth_drop [of 2 ks] by (simp add: kOrder_def numeral_3_eq_3 flip: Suc_1)
  have d: "distinct ks \<Longrightarrow> ks ! 2 \<notin> set (take 2 ks) \<and> ks ! 2 \<notin> set (drop 3 ks)"
    by (subst (asm) ks) auto
  have "length ks div 2 = 2" "Suc (length ks div 2) = 3"
    using assms(3) by (simp_all add: kOrder_def)
  then show ?thesis
    using assms ks d
    by (simp add: splitInternalNode_unfold splitInternalHalves_def Let_def kOrder_def
        growRoot_def eq_commute [of "Some internalNode"])
qed

section \<open>The insertions of the demonstration driver\<close>

text \<open>
  Claim C8, as stated: the nine insertions of \<^verbatim>\<open>main\<close> give a tree of three levels, whose
  root has an internal child. They do not: the third leaf split brings the root to three
  keys, one short of \<open>kOrder\<close>, so no internal node is ever split and every child of the
  root is a leaf.
\<close>

theorem demo_not_three_levels:
  "map_option hasInternalChild (inserts emptyTree demoInserts) = Some False"
  by code_simp

text \<open>
  Claim C8, amended: the nine insertions give a tree of two levels, an internal root
  with the keys 10, 16, 20 over four leaves; afterwards \<open>search 18\<close> returns 180 and
  \<open>search 30\<close> returns nothing.
\<close>

theorem demo_two_levels:
  "inserts emptyTree demoInserts =
     Some \<lparr>heap = [BPlusLeafNode [2, 5, 6] [20, 50, 60] (Some 1),
                  BPlusLeafNode [10, 15] [100, 150] (Some 4),
                  BPlusInternalNode [10, 16, 20] [0, 1, 4, 3],
                  BPlusLeafNode [20, 25] [200, 250] None,
                  BPlusLeafNode [16, 18] [160, 180] (Some 3)],
           root = Some 2\<rparr>
   \<and> map_option (\<lambda>t. (rootIsInternal t, hasInternalChild t, search t 18, search t 30))
         (inserts emptyTree demoInserts)
       = Some (True, False, Some (Some 180), Some None)"
  by code_simp

section \<open>The store of a tree built by insertions\<close>

lemma repr_plug: "repr h (plug C t) = (reprCtx h C (addrOf t) \<and> repr h t)"
proof (induction C arbitrary: t)
  case Nil
  then show ?case by simp
next
  case (Cons f C)
  then show ?case by (cases f) auto
qed

lemma addrOf_plug: "addrOf (plug C t) = (if C = [] then addrOf t else faddr (last C))"
proof (induction C arbitrary: t)
  case Nil
  then show ?case by simp
next
  case (Cons f C)
  then show ?case by (cases f) auto
qed

lemma mset_addrs_plug: "mset (addrs (plug C t)) = mset (ctxAddrs C) + mset (addrs t)"
proof (induction C arbitrary: t)
  case Nil
  then show ?case by simp
next
  case (Cons f C)
  then show ?case by (cases f) (simp add: ac_simps)
qed

lemma plug_append: "plug (C1 @ C2) t = plug C2 (plug C1 t)"
  by (induction C1 arbitrary: t) auto

lemma addrOf_plug_cong: "addrOf t = addrOf t' \<Longrightarrow> addrOf (plug C t) = addrOf (plug C t')"
  by (simp add: addrOf_plug)

lemma repr_less: "repr h t \<Longrightarrow> a \<in> set (addrs t) \<Longrightarrow> a < length h"
  by (induction t) auto

lemma addrOf_in_addrs: "addrOf t \<in> set (addrs t)"
  by (cases t) auto

lemma reprCtx_less: "reprCtx h C a \<Longrightarrow> b \<in> set (ctxAddrs C) \<Longrightarrow> b < length h"
proof (induction C arbitrary: a)
  case Nil
  then show ?case by simp
next
  case (Cons f C)
  then show ?case by (cases f) (auto dest: repr_less)
qed

lemma reprCtx_cong: "reprCtx h C a \<Longrightarrow> C \<noteq> [] \<Longrightarrow> faddr (last C) < length h"
proof (induction C arbitrary: a)
  case Nil
  then show ?case by simp
next
  case (Cons f C)
  then show ?case by (cases f) (cases C, auto)
qed

subsection \<open>findLeaf\<close>

lemma findLeafLoop_leaf:
  "a < length h \<Longrightarrow> h ! a = BPlusLeafNode ks vs nx \<Longrightarrow> findLeafLoop h (Some a) key = Some (Some a)"
  by (subst findLeafLoop.simps) simp

lemma findLeafLoop_step:
  "p < length h \<Longrightarrow> h ! p = BPlusInternalNode ks cs \<Longrightarrow> scanKeys key ks < length cs \<Longrightarrow>
   findLeafLoop h (Some p) key = findLeafLoop h (Some (cs ! scanKeys key ks)) key"
  by (subst findLeafLoop.simps) (simp add: Let_def)

lemma findLeafLoop_plug:
  "reprCtx h C (addrOf t) \<Longrightarrow> list_all (onPath key) C \<Longrightarrow>
   findLeafLoop h (Some (addrOf (plug C t))) key = findLeafLoop h (Some (addrOf t)) key"
proof (induction C arbitrary: t)
  case Nil
  then show ?case by simp
next
  case (Cons f C)
  obtain p ks ls rs where f: "f = Frame p ks ls rs" by (cases f)
  from Cons.prems have ctx: "reprCtx h C p" and path: "list_all (onPath key) C"
    and cell: "p < length h" "h ! p = BPlusInternalNode ks (map addrOf ls @ addrOf t # map addrOf rs)"
    and i: "scanKeys key ks = length ls"
    by (auto simp: f)
  have "findLeafLoop h (Some (addrOf (plug (f # C) t))) key = findLeafLoop h (Some p) key"
    using Cons.IH [of "plug1 f t"] ctx path by (simp add: f)
  also have "\<dots> = findLeafLoop h (Some (addrOf t)) key"
    using findLeafLoop_step [OF cell, of key] i by (simp add: nth_append)
  finally show ?case .
qed

subsection \<open>findParent\<close>

lemma findParentLoop_Nil: "findParentLoop h cur [] c = Some None"
  by (subst findParentLoop.simps) simp

lemma findParentLoop_hit: "findParentLoop h cur (c # rest) c = Some (Some cur)"
  by (subst findParentLoop.simps) simp

lemma findParentLoop_leaf:
  "ptr \<noteq> c \<Longrightarrow> ptr < length h \<Longrightarrow> h ! ptr = BPlusLeafNode ks vs nx \<Longrightarrow>
   findParentLoop h cur (ptr # rest) c = findParentLoop h cur rest c"
  by (subst findParentLoop.simps) simp

lemma findParentLoop_internal:
  "ptr \<noteq> c \<Longrightarrow> ptr < length h \<Longrightarrow> h ! ptr = BPlusInternalNode ks cs \<Longrightarrow>
   findParentLoop h cur (ptr # rest) c =
     Option.bind (findParentLoop h ptr cs c)
       (\<lambda>candidate. case candidate of Some p \<Rightarrow> Some (Some p)
                     | None \<Rightarrow> findParentLoop h cur rest c)"
  by (subst findParentLoop.simps) simp

lemma findParentLoop_none_aux:
  "\<forall>x \<in> set ts. repr h x \<and> c \<notin> set (addrs x) \<and>
      (\<forall>a' ks' ts'. x = ANode a' ks' ts' \<longrightarrow> findParentLoop h a' (map addrOf ts') c = Some None)
   \<Longrightarrow> findParentLoop h cur (map addrOf ts) c = Some None"
proof (induction ts)
  case Nil
  then show ?case by (simp add: findParentLoop_Nil)
next
  case (Cons x ts)
  have x: "repr h x" "c \<notin> set (addrs x)" using Cons.prems by auto
  have rest: "findParentLoop h cur (map addrOf ts) c = Some None"
    using Cons.IH Cons.prems by simp
  show ?case
  proof (cases x)
    case (ALeaf a ks vs nx)
    then show ?thesis using x rest by (simp add: findParentLoop_leaf)
  next
    case (ANode a ks ts')
    then have "findParentLoop h a (map addrOf ts') c = Some None"
      using Cons.prems by simp
    then show ?thesis using x rest ANode
      by (simp add: findParentLoop_internal [where ks = ks and cs = "map addrOf ts'"])
  qed
qed

lemma findParentLoop_none_tree:
  "repr h t \<Longrightarrow> c \<notin> set (addrs t) \<Longrightarrow> t = ANode a ks ts \<Longrightarrow>
   findParentLoop h a (map addrOf ts) c = Some None"
proof (induction t arbitrary: a ks ts)
  case (ALeaf x1 x2 x3 x4)
  then show ?case by simp
next
  case (ANode b ks' ts')
  show ?case
  proof (rule findParentLoop_none_aux, rule ballI)
    fix x assume "x \<in> set ts"
    then have x: "x \<in> set ts'" using ANode.prems by simp
    then have "repr h x" "c \<notin> set (addrs x)" using ANode.prems by auto
    then show "repr h x \<and> c \<notin> set (addrs x) \<and>
      (\<forall>a' ks' ts'. x = ANode a' ks' ts' \<longrightarrow> findParentLoop h a' (map addrOf ts') c = Some None)"
      using ANode.IH [OF x] by blast
  qed
qed

lemma findParentLoop_none:
  "(\<And>x. x \<in> set ts \<Longrightarrow> repr h x \<and> c \<notin> set (addrs x)) \<Longrightarrow>
   findParentLoop h cur (map addrOf ts) c = Some None"
  by (rule findParentLoop_none_aux) (auto intro: findParentLoop_none_tree [OF _ _ refl])

lemma findParentLoop_skip:
  "(\<And>x. x \<in> set ls \<Longrightarrow> repr h x \<and> c \<notin> set (addrs x)) \<Longrightarrow>
   findParentLoop h cur (map addrOf ls @ rest) c = findParentLoop h cur rest c"
proof (induction ls)
  case Nil
  then show ?case by simp
next
  case (Cons x ls)
  have x: "repr h x" "c \<notin> set (addrs x)" using Cons.prems [of x] by auto
  have rest: "findParentLoop h cur (map addrOf ls @ rest) c = findParentLoop h cur rest c"
    using Cons.IH Cons.prems by simp
  show ?case
  proof (cases x)
    case (ALeaf a ks vs nx)
    then show ?thesis using x rest by (simp add: findParentLoop_leaf)
  next
    case (ANode a ks ts')
    then have "findParentLoop h a (map addrOf ts') c = Some None"
      using x findParentLoop_none_tree [of h x c a ks ts'] by simp
    then show ?thesis using x rest ANode
      by (simp add: findParentLoop_internal [where ks = ks and cs = "map addrOf ts'"])
  qed
qed

lemma findParent_internal:
  "a < length h \<Longrightarrow> h ! a = BPlusInternalNode ks cs \<Longrightarrow>
   findParent h (Some a) c = findParentLoop h a cs c"
  by (simp add: findParent_def)

lemma findParent_SomeD:
  "findParent h (Some a) c = Some (Some p) \<Longrightarrow>
   a < length h \<and> (\<exists>ks cs. h ! a = BPlusInternalNode ks cs \<and> findParentLoop h a cs c = Some (Some p))"
  by (auto simp: findParent_def split: if_splits BPlusNode.splits)

lemma findParent_up:
  "reprCtx h C a \<Longrightarrow> c \<notin> set (ctxAddrs C) \<Longrightarrow> a \<noteq> c \<Longrightarrow> addrOf x = a \<Longrightarrow>
   findParent h (Some a) c = Some (Some p) \<Longrightarrow>
   findParent h (Some (addrOf (plug C x))) c = Some (Some p)"
proof (induction C arbitrary: a x)
  case Nil
  then show ?case by simp
next
  case (Cons f C)
  obtain q ks ls rs where f: "f = Frame q ks ls rs" by (cases f)
  from Cons.prems(1) have ctx: "reprCtx h C q"
    and cell: "q < length h" "h ! q = BPlusInternalNode ks (map addrOf ls @ a # map addrOf rs)"
    and ls: "\<And>t. t \<in> set ls \<Longrightarrow> repr h t"
    by (auto simp: f)
  from Cons.prems(2) have nc: "c \<notin> set (ctxAddrs C)" "q \<noteq> c"
    and nls: "\<And>t. t \<in> set ls \<Longrightarrow> c \<notin> set (addrs t)"
    by (auto simp: f)
  obtain ks' cs' where a: "a < length h" "h ! a = BPlusInternalNode ks' cs'"
    "findParentLoop h a cs' c = Some (Some p)"
    using findParent_SomeD [OF Cons.prems(5)] by blast
  have "findParent h (Some q) c = findParentLoop h q (map addrOf ls @ a # map addrOf rs) c"
    using cell by (rule findParent_internal)
  also have "\<dots> = findParentLoop h q (a # map addrOf rs) c"
    using ls nls by (intro findParentLoop_skip) simp
  also have "\<dots> = Some (Some p)"
    using a Cons.prems(3) by (simp add: findParentLoop_internal [where ks = ks' and cs = cs'])
  finally have "findParent h (Some q) c = Some (Some p)" .
  from Cons.IH [OF ctx nc(1) nc(2) _ this, of "plug1 f x"]
  show ?case by (simp add: f)
qed

lemma findParent_plug:
  assumes "reprCtx h (f # C) (addrOf t)" and "addrOf t \<notin> set (ctxAddrs (f # C))"
  shows "findParent h (Some (addrOf (plug (f # C) t))) (addrOf t) = Some (Some (faddr f))"
proof -
  obtain q ks ls rs where f: "f = Frame q ks ls rs" by (cases f)
  from assms(1) have ctx: "reprCtx h C q"
    and cell: "q < length h" "h ! q = BPlusInternalNode ks (map addrOf ls @ addrOf t # map addrOf rs)"
    and ls: "\<And>x. x \<in> set ls \<Longrightarrow> repr h x"
    by (auto simp: f)
  from assms(2) have nc: "addrOf t \<notin> set (ctxAddrs C)" "q \<noteq> addrOf t"
    and nls: "\<And>x. x \<in> set ls \<Longrightarrow> addrOf t \<notin> set (addrs x)"
    by (auto simp: f)
  have "findParent h (Some q) (addrOf t)
          = findParentLoop h q (map addrOf ls @ addrOf t # map addrOf rs) (addrOf t)"
    using cell by (rule findParent_internal)
  also have "\<dots> = findParentLoop h q (addrOf t # map addrOf rs) (addrOf t)"
    using ls nls by (intro findParentLoop_skip) simp
  also have "\<dots> = Some (Some q)"
    by (rule findParentLoop_hit)
  finally have "findParent h (Some q) (addrOf t) = Some (Some q)" .
  from findParent_up [OF ctx nc(1) nc(2) _ this, of "plug1 f t"]
  show ?thesis by (simp add: f)
qed

subsection \<open>Store updates\<close>

lemma repr_update: "repr h t \<Longrightarrow> p \<notin> set (addrs t) \<Longrightarrow> repr (h[p := x]) t"
  by (induction t) auto

lemma repr_append: "repr h t \<Longrightarrow> repr (h @ [x]) t"
  by (induction t) (auto simp: nth_append)

lemma reprCtx_update: "reprCtx h C a \<Longrightarrow> p \<notin> set (ctxAddrs C) \<Longrightarrow> reprCtx (h[p := x]) C a"
proof (induction C arbitrary: a)
  case Nil
  then show ?case by simp
next
  case (Cons f C)
  then show ?case by (cases f) (auto simp: repr_update)
qed

lemma reprCtx_append: "reprCtx h C a \<Longrightarrow> reprCtx (h @ [x]) C a"
proof (induction C arbitrary: a)
  case Nil
  then show ?case by simp
next
  case (Cons f C)
  then show ?case by (cases f) (auto simp: repr_append nth_append)
qed

lemma reprCtx_addr: "reprCtx h C a \<Longrightarrow> reprCtx h C (addrOf (ANode a ks ts))"
  by simp

subsection \<open>The leaf loops\<close>

lemma keyIndex_None: "keyIndex ks key = None \<longleftrightarrow> key \<notin> set ks"
  by (induction ks) auto

lemma keyIndex_Some: "keyIndex ks key = Some i \<Longrightarrow> i < length ks \<and> ks ! i = key"
  by (induction ks arbitrary: i) (auto split: if_splits)

lemma bubble_spec:
  "length vpre = length pre \<Longrightarrow> length vsuf = length suf \<Longrightarrow>
   \<exists>ks' vs'. bubble (length pre) (pre @ key # suf) (vpre @ val # vsuf) = Some (ks', vs')
     \<and> length ks' = Suc (length pre + length suf) \<and> length vs' = length ks'
     \<and> mset (zip ks' vs') = mset (zip (pre @ key # suf) (vpre @ val # vsuf))
     \<and> (sorted_wrt (<) (pre @ suf) \<and> (\<forall>x \<in> set suf. key < x) \<and> key \<notin> set pre
          \<longrightarrow> sorted_wrt (<) ks')"
proof (induction pre arbitrary: vpre suf vsuf rule: rev_induct)
  case Nil
  then show ?case by simp
next
  case (snoc x pre)
  from snoc.prems(1) obtain y vpre' where vpre: "vpre = vpre' @ [y]" "length vpre' = length pre"
    by (cases vpre rule: rev_cases) auto
  let ?ks = "(pre @ [x]) @ key # suf" and ?vs = "vpre @ val # vsuf"
  have len: "length (pre @ [x]) = Suc (length pre)" by simp
  have nth: "?ks ! Suc (length pre) = key" "?ks ! length pre = x"
    "?vs ! Suc (length pre) = val" "?vs ! length pre = y"
    using vpre by (simp_all add: nth_append)
  show ?case
  proof (cases "key < x")
    case True
    have swapk: "?ks[Suc (length pre) := x, length pre := key] = pre @ key # (x # suf)"
      by (simp add: list_update_append)
    have swapv: "?vs[Suc (length pre) := y, length pre := val] = vpre' @ val # (y # vsuf)"
      using vpre by (simp add: list_update_append)
    have step: "bubble (length (pre @ [x])) ?ks ?vs
                  = bubble (length pre) (pre @ key # (x # suf)) (vpre' @ val # (y # vsuf))"
      unfolding len using True snoc.prems vpre nth swapk swapv
      by (simp del: append_assoc list_update.simps)
    have "length (y # vsuf) = length (x # suf)" using snoc.prems(2) by simp
    from snoc.IH [OF vpre(2) this]
    obtain ks' vs' where r: "bubble (length pre) (pre @ key # (x # suf)) (vpre' @ val # (y # vsuf)) = Some (ks', vs')"
      "length ks' = Suc (length pre + length (x # suf))" "length vs' = length ks'"
      "mset (zip ks' vs') = mset (zip (pre @ key # (x # suf)) (vpre' @ val # (y # vsuf)))"
      "sorted_wrt (<) (pre @ (x # suf)) \<and> (\<forall>z \<in> set (x # suf). key < z) \<and> key \<notin> set pre
          \<longrightarrow> sorted_wrt (<) ks'"
      by blast
    have m: "mset (zip (pre @ key # (x # suf)) (vpre' @ val # (y # vsuf)))
              = mset (zip ?ks ?vs)"
      using vpre snoc.prems(2) by simp
    show ?thesis
      using r True m unfolding step by auto
  next
    case False
    have step: "bubble (length (pre @ [x])) ?ks ?vs = Some (?ks, ?vs)"
      unfolding len using False snoc.prems vpre nth
      by (simp del: append_assoc)
    have "sorted_wrt (<) ((pre @ [x]) @ suf) \<and> (\<forall>z \<in> set suf. key < z) \<and> key \<notin> set (pre @ [x])
            \<longrightarrow> sorted_wrt (<) ?ks"
      using False by (auto simp: sorted_wrt_append)
    then show ?thesis
      unfolding step using snoc.prems vpre by simp
  qed
qed

lemma bubble_append:
  assumes "length vs = length ks" "sorted_wrt (<) ks" "key \<notin> set ks"
  shows "\<exists>ks' vs'. bubble (length ks) (ks @ [key]) (vs @ [val]) = Some (ks', vs')
     \<and> length ks' = Suc (length ks) \<and> length vs' = length ks'
     \<and> mset (zip ks' vs') = mset (zip ks vs) + {#(key, val)#}
     \<and> sorted_wrt (<) ks' \<and> set ks' = insert key (set ks)"
proof -
  from bubble_spec [of vs ks "[]" "[]" key val] assms
  obtain ks' vs' where r: "bubble (length ks) (ks @ [key]) (vs @ [val]) = Some (ks', vs')"
    "length ks' = Suc (length ks)" "length vs' = length ks'"
    "mset (zip ks' vs') = mset (zip (ks @ [key]) (vs @ [val]))" "sorted_wrt (<) ks'"
    by fastforce
  have "mset (map fst (zip ks' vs')) = mset (map fst (zip (ks @ [key]) (vs @ [val])))"
    using r(4) by (metis mset_map)
  then have "mset ks' = mset (ks @ [key])"
    using r(3) assms(1) by simp
  then have "set ks' = set (ks @ [key])" by (rule mset_eq_setD)
  then show ?thesis using r assms(1) by auto
qed

lemma childIndex_append: "c \<notin> set xs \<Longrightarrow> childIndex (xs @ c # ys) c = length xs"
  by (induction xs) auto

lemma last_in_ctxAddrs: "C \<noteq> [] \<Longrightarrow> faddr (last C) \<in> set (ctxAddrs C)"
proof (induction C)
  case Nil
  then show ?case by simp
next
  case (Cons f C)
  then show ?case by (cases f) auto
qed

lemma addrOf_plug_Cons: "addrOf (plug (g # C) t) = faddr (last (g # C))"
  using addrOf_plug [of "g # C" t] by simp

lemma insertInternalUpKey_found:
  "findParent (heap t) (root t) a = Some (Some p) \<Longrightarrow> attach t p k a b = Some t2 \<Longrightarrow>
   insertInternalUpKey t k a b =
     (if kOrder \<le> length (nodeKeys (heap t2 ! p)) then splitInternalNode t2 p
      else Some (Completed t2))"
  by (simp add: insertInternalUpKey_def)

lemma attach_step:
  assumes root: "root t1 = Some (addrOf (plug (Frame p ks ls rs # C) l))"
    and ctx: "reprCtx (heap t1) (Frame p ks ls rs # C) (addrOf l)"
    and l: "repr (heap t1) l" and r: "repr (heap t1) r"
    and dist: "distinct (ctxAddrs (Frame p ks ls rs # C) @ addrs l @ addrs r)"
    and shape: "length ls + length rs = length ks"
    and ks': "ks' = take (length ls) ks @ k # drop (length ls) ks"
    and ts': "ts' = ls @ l # r # rs"
    and t2: "t2 = t1\<lparr>heap := (heap t1)[p := BPlusInternalNode ks' (map addrOf ts')]\<rparr>"
  shows "findParent (heap t1) (root t1) (addrOf l) = Some (Some p)"
    and "attach t1 p k (addrOf l) (addrOf r) = Some t2"
    and "repr (heap t2) (ANode p ks' ts')"
    and "reprCtx (heap t2) C p"
proof -
  have lin: "addrOf l \<in> set (addrs l)" by (rule addrOf_in_addrs)
  have notin: "addrOf l \<notin> set (ctxAddrs (Frame p ks ls rs # C))"
    using dist lin by auto
  show "findParent (heap t1) (root t1) (addrOf l) = Some (Some p)"
    using findParent_plug [OF ctx notin] root by simp
  have cell: "p < length (heap t1)"
    "heap t1 ! p = BPlusInternalNode ks (map addrOf ls @ addrOf l # map addrOf rs)"
    using ctx by auto
  have "addrOf l \<notin> set (map addrOf ls)"
  proof
    assume "addrOf l \<in> set (map addrOf ls)"
    then obtain x where "x \<in> set ls" "addrOf x = addrOf l" by auto
    then have "addrOf l \<in> set (concat (map addrs ls))"
      using addrOf_in_addrs [of x] by auto
    then show False using notin by simp
  qed
  then have idx: "childIndex (map addrOf ls @ addrOf l # map addrOf rs) (addrOf l) = length ls"
    using childIndex_append [of "addrOf l" "map addrOf ls"] by simp
  have i1: "insertAt (length ls) k ks = Some ks'"
    using shape by (simp add: insertAt_def ks')
  have i2: "insertAt (length ls + 1) (addrOf r) (map addrOf ls @ addrOf l # map addrOf rs)
              = Some (map addrOf ts')"
    by (simp add: insertAt_def ts')
  show "attach t1 p k (addrOf l) (addrOf r) = Some t2"
    using cell idx i1 i2 by (simp add: attach_def t2)
  have pnot: "\<And>x. x \<in> set ts' \<Longrightarrow> p \<notin> set (addrs x)"
    using dist by (auto simp: ts')
  have reprs: "\<And>x. x \<in> set ts' \<Longrightarrow> repr (heap t1) x"
    using ctx l r by (auto simp: ts')
  show "repr (heap t2) (ANode p ks' ts')"
    using cell(1) pnot reprs by (simp add: t2 repr_update)
  have "p \<notin> set (ctxAddrs C)" using dist by auto
  then show "reprCtx (heap t2) C p"
    using ctx by (simp add: t2 reprCtx_update)
qed

lemma split_step:
  assumes node: "repr (heap t2) (ANode p ks' ts')"
    and ctx: "reprCtx (heap t2) C p"
    and pC: "p \<notin> set (ctxAddrs C)"
    and pts: "\<And>x. x \<in> set ts' \<Longrightarrow> p \<notin> set (addrs x)"
    and len: "length ts' = Suc (length ks')" "ks' \<noteq> []"
    and mid: "mid = length ks' div 2"
    and t3: "t3 = t2\<lparr>heap := (heap t2 @ [BPlusInternalNode (drop (Suc mid) ks')
                                            (map addrOf (drop (Suc mid) ts'))])
                                [p := BPlusInternalNode (take mid ks')
                                        (map addrOf (take (Suc mid) ts'))]\<rparr>"
  shows "splitInternalHalves t2 p = Some (t3, ks' ! mid, length (heap t2))"
    and "repr (heap t3) (ANode p (take mid ks') (take (Suc mid) ts'))"
    and "repr (heap t3) (ANode (length (heap t2)) (drop (Suc mid) ks') (drop (Suc mid) ts'))"
    and "reprCtx (heap t3) C p"
proof -
  have cell: "p < length (heap t2)" "heap t2 ! p = BPlusInternalNode ks' (map addrOf ts')"
    using node by auto
  have m: "mid < length ks'" "Suc mid \<le> length ts'"
    using len by (auto simp: mid)
  show "splitInternalHalves t2 p = Some (t3, ks' ! mid, length (heap t2))"
    using cell m by (simp add: splitInternalHalves_def Let_def t3 mid drop_map take_map)
  have reprs: "\<And>x. x \<in> set ts' \<Longrightarrow> repr (heap t3) x"
    using node pts by (simp add: t3 repr_update repr_append)
  show "repr (heap t3) (ANode p (take mid ks') (take (Suc mid) ts'))"
    using cell(1) reprs by (auto simp: t3 dest: in_set_takeD)
  show "repr (heap t3) (ANode (length (heap t2)) (drop (Suc mid) ks') (drop (Suc mid) ts'))"
    using cell(1) reprs by (auto simp: t3 dest: in_set_dropD)
  show "reprCtx (heap t3) C p"
    using ctx pC by (simp add: t3 reprCtx_update reprCtx_append)
qed

lemma split_addrs:
  assumes "ts' = ls @ l # r # rs"
  shows "mset (ctxAddrs C @ addrs (ANode p ka (take m ts')) @ addrs (ANode n kb (drop m ts')))
          = add_mset n (mset (ctxAddrs (Frame p ks ls rs # C) @ addrs l @ addrs r))"
proof -
  have "mset (concat (map addrs (take m ts'))) + mset (concat (map addrs (drop m ts')))
          = mset (concat (map addrs (take m ts' @ drop m ts')))"
    by (simp del: append_take_drop_id)
  also have "\<dots> = mset (concat (map addrs ts'))" by simp
  finally show ?thesis by (simp add: assms ac_simps)
qed

lemma fresh_distinct:
  assumes "mset xs = add_mset n (mset ys)" "distinct ys" "\<And>a. a \<in> set ys \<Longrightarrow> a < n"
  shows "distinct xs \<and> (\<forall>a \<in> set xs. a < Suc n)"
proof -
  have "n \<notin> set ys" using assms(3) by auto
  then have "distinct (n # ys)" using assms(2) by simp
  moreover have "mset xs = mset (n # ys)" using assms(1) by simp
  ultimately have "distinct xs" by (metis mset_eq_imp_distinct_iff)
  moreover have "set xs = set (n # ys)" using \<open>mset xs = mset (n # ys)\<close> by (rule mset_eq_setD)
  ultimately show ?thesis using assms(3) by (auto simp: less_Suc_eq)
qed

lemma cascade:
  assumes "root t1 = Some (addrOf (plug (f # C) l))"
    and "reprCtx (heap t1) (f # C) (addrOf l)"
    and "repr (heap t1) l" and "repr (heap t1) r"
    and "distinct (ctxAddrs (f # C) @ addrs l @ addrs r)"
    and "list_all shapeF (f # C)"
  shows "\<exists>t'. insertInternalUpKey t1 k (addrOf l) (addrOf r) = Some (Completed t')
            \<and> root t' = Some (addrOf (rebuild (length (heap t1)) (f # C) (l, k, r)))
            \<and> repr (heap t') (rebuild (length (heap t1)) (f # C) (l, k, r))"
  using assms
proof (induction C arbitrary: f t1 l k r)
  case Nil
  obtain p ks ls rs where f: "f = Frame p ks ls rs" by (cases f)
  define ks' where "ks' = take (length ls) ks @ k # drop (length ls) ks"
  define ts' where "ts' = ls @ l # r # rs"
  define t2 where "t2 = t1\<lparr>heap := (heap t1)[p := BPlusInternalNode ks' (map addrOf ts')]\<rparr>"
  have shape: "length ls + length rs = length ks" using Nil.prems(6) by (simp add: f)
  note st = attach_step [OF Nil.prems(1-5) [unfolded f] shape ks'_def ts'_def t2_def]
  have root2: "root t2 = Some p" using Nil.prems(1) by (simp add: t2_def f)
  have keys2: "nodeKeys (heap t2 ! p) = ks'" using st(3) by simp
  have len2: "length (heap t2) = length (heap t1)" by (simp add: t2_def)
  note found = insertInternalUpKey_found [OF st(1) st(2), unfolded keys2]
  have rb: "rebuild (length (heap t1)) (f # []) (l, k, r) =
     (if length ks' \<ge> kOrder
         then rebuild (Suc (length (heap t1))) [] (ANode p (take (length ks' div 2) ks') (take (Suc (length ks' div 2)) ts'), ks' ! (length ks' div 2),
                ANode (length (heap t1)) (drop (Suc (length ks' div 2)) ks') (drop (Suc (length ks' div 2)) ts'))
         else plug [] (ANode p ks' ts'))"
    unfolding f rebuild.simps(2) absorb.simps keysOf.simps halves.simps ks'_def ts'_def ..
  show ?case
  proof (cases "length ks' \<ge> kOrder")
    case False
    then show ?thesis
      unfolding found rb using st(3) root2 by simp
  next
    case True
    define mid where "mid = length ks' div 2"
    define t3 where "t3 = t2\<lparr>heap := (heap t2 @ [BPlusInternalNode (drop (Suc mid) ks')
                                            (map addrOf (drop (Suc mid) ts'))])
                                [p := BPlusInternalNode (take mid ks')
                                        (map addrOf (take (Suc mid) ts'))]\<rparr>"
    have pts: "\<And>x. x \<in> set ts' \<Longrightarrow> p \<notin> set (addrs x)"
      using Nil.prems(5) by (auto simp: f ts'_def)
    have len: "length ts' = Suc (length ks')" "ks' \<noteq> []"
      using shape by (auto simp: ts'_def ks'_def)
    note sp = split_step [OF st(3) st(4) _ pts len mid_def t3_def]
    have root3: "root t3 = Some p" using root2 by (simp add: t3_def)
    have len3: "length (heap t3) = Suc (length (heap t1))" by (simp add: t3_def t2_def)
    let ?l = "ANode p (take mid ks') (take (Suc mid) ts')"
    let ?r = "ANode (length (heap t1)) (drop (Suc mid) ks') (drop (Suc mid) ts')"
    have "splitInternalNode t2 p = Some (Completed (growRoot t3 (ks' ! mid) p (length (heap t1))))"
      using sp(1) root3 by (simp add: splitInternalNode_unfold len2)
    moreover have "repr (heap (growRoot t3 (ks' ! mid) p (length (heap t1))))
                     (ANode (Suc (length (heap t1))) [ks' ! mid] [?l, ?r])"
      using sp(2,3) [simplified] len3 by (simp add: growRoot_def repr_append len2 nth_append)
    moreover have "root (growRoot t3 (ks' ! mid) p (length (heap t1))) = Some (Suc (length (heap t1)))"
      by (simp add: growRoot_def len3)
    ultimately show ?thesis
      unfolding found rb using True by (simp add: mid_def)
  qed
next
  case (Cons g C)
  obtain p ks ls rs where f: "f = Frame p ks ls rs" by (cases f)
  define ks' where "ks' = take (length ls) ks @ k # drop (length ls) ks"
  define ts' where "ts' = ls @ l # r # rs"
  define t2 where "t2 = t1\<lparr>heap := (heap t1)[p := BPlusInternalNode ks' (map addrOf ts')]\<rparr>"
  have shape: "length ls + length rs = length ks" using Cons.prems(6) by (simp add: f)
  note st = attach_step [OF Cons.prems(1-5) [unfolded f] shape ks'_def ts'_def t2_def]
  have pC: "p \<notin> set (ctxAddrs (g # C))" using Cons.prems(5) by (simp add: f)
  have root2: "root t2 = Some (faddr (last (g # C)))"
    using Cons.prems(1) unfolding addrOf_plug_Cons by (simp add: t2_def)
  have rootp: "faddr (last (g # C)) \<noteq> p"
    using last_in_ctxAddrs [of "g # C"] pC by auto
  have keys2: "nodeKeys (heap t2 ! p) = ks'" using st(3) by simp
  note found = insertInternalUpKey_found [OF st(1) st(2), unfolded keys2]
  have rb: "rebuild (length (heap t1)) (f # g # C) (l, k, r) =
     (if length ks' \<ge> kOrder
         then rebuild (Suc (length (heap t1))) (g # C) (ANode p (take (length ks' div 2) ks') (take (Suc (length ks' div 2)) ts'), ks' ! (length ks' div 2),
                ANode (length (heap t1)) (drop (Suc (length ks' div 2)) ks') (drop (Suc (length ks' div 2)) ts'))
         else plug (g # C) (ANode p ks' ts'))"
    unfolding f rebuild.simps(2) absorb.simps keysOf.simps halves.simps ks'_def ts'_def ..
  show ?case
  proof (cases "length ks' \<ge> kOrder")
    case False
    have "repr (heap t2) (plug (g # C) (ANode p ks' ts'))"
      using st(3,4) by (simp add: repr_plug del: plug.simps)
    moreover have "root t2 = Some (addrOf (plug (g # C) (ANode p ks' ts')))"
      using root2 unfolding addrOf_plug_Cons by simp
    ultimately show ?thesis
      unfolding found rb using False by simp
  next
    case True
    define mid where "mid = length ks' div 2"
    define t3 where "t3 = t2\<lparr>heap := (heap t2 @ [BPlusInternalNode (drop (Suc mid) ks')
                                            (map addrOf (drop (Suc mid) ts'))])
                                [p := BPlusInternalNode (take mid ks')
                                        (map addrOf (take (Suc mid) ts'))]\<rparr>"
    have pts: "\<And>x. x \<in> set ts' \<Longrightarrow> p \<notin> set (addrs x)"
      using Cons.prems(5) by (auto simp: f ts'_def)
    have len: "length ts' = Suc (length ks')" "ks' \<noteq> []"
      using shape by (auto simp: ts'_def ks'_def)
    note sp = split_step [OF st(3) st(4) pC pts len mid_def t3_def]
    have len2: "length (heap t2) = length (heap t1)" by (simp add: t2_def)
    have len3: "length (heap t3) = Suc (length (heap t1))" by (simp add: t3_def t2_def)
    have root3: "root t3 = Some (faddr (last (g # C)))" using root2 by (simp add: t3_def)
    let ?l = "ANode p (take mid ks') (take (Suc mid) ts')"
    let ?r = "ANode (length (heap t1)) (drop (Suc mid) ks') (drop (Suc mid) ts')"
    have less: "\<And>a. a \<in> set (ctxAddrs (Frame p ks ls rs # g # C) @ addrs l @ addrs r)
                  \<Longrightarrow> a < length (heap t1)"
      using reprCtx_less [OF Cons.prems(2) [unfolded f]] repr_less [OF Cons.prems(3)]
        repr_less [OF Cons.prems(4)] by auto
    have d: "distinct (ctxAddrs (g # C) @ addrs ?l @ addrs ?r)"
      using fresh_distinct [OF split_addrs [OF ts'_def] Cons.prems(5) [unfolded f] less]
      by blast
    have "\<exists>t'. insertInternalUpKey t3 (ks' ! mid) (addrOf ?l) (addrOf ?r) = Some (Completed t')
            \<and> root t' = Some (addrOf (rebuild (length (heap t3)) (g # C) (?l, ks' ! mid, ?r)))
            \<and> repr (heap t') (rebuild (length (heap t3)) (g # C) (?l, ks' ! mid, ?r))"
    proof (rule Cons.IH)
      show "root t3 = Some (addrOf (plug (g # C) ?l))"
        using root3 unfolding addrOf_plug_Cons by simp
      show "reprCtx (heap t3) (g # C) (addrOf ?l)" using sp(4) by simp
      show "repr (heap t3) ?l" by (rule sp(2))
      show "repr (heap t3) ?r" using sp(3) by (simp only: len2)
      show "distinct (ctxAddrs (g # C) @ addrs ?l @ addrs ?r)" by (rule d)
      show "list_all shapeF (g # C)" using Cons.prems(6) by simp
    qed
    moreover have "splitInternalNode t2 p
                     = insertInternalUpKey t3 (ks' ! mid) p (length (heap t1))"
      using sp(1) root3 rootp by (simp add: splitInternalNode_unfold len2)
    ultimately show ?thesis
      unfolding found rb using True by (simp add: mid_def len3 del: rebuild.simps)
  qed
qed

lemma ordered_emptyLeaf [simp]: "ordered lo hi emptyLeaf"
  by (simp add: emptyLeaf_def)

lemma orderedList_length: "orderedList lo ks hi ts \<Longrightarrow> length ts = Suc (length ks)"
  by (induction lo ks hi ts rule: ordered_orderedList.induct(2) [where P = "\<lambda>_ _ _. True"]) auto

lemma orderedList_hole:
  "orderedList lo ks hi (ls @ t # rs) =
     (orderedList lo ks hi (ls @ emptyLeaf # rs)
      \<and> ordered (holeLo lo (Frame p ks ls rs)) (holeHi hi (Frame p ks ls rs)) t)"
proof (induction ls arbitrary: ks lo)
  case Nil
  show ?case
  proof (cases ks)
    case Nil
    then show ?thesis by (cases rs) auto
  next
    case (Cons k ks')
    then show ?thesis by auto
  qed
next
  case (Cons x ls)
  show ?case
  proof (cases ks)
    case Nil
    then show ?thesis by (cases ls) auto
  next
    case (Cons k ks')
    have "(if ls = [] then Some k else Some (ks' ! (length ls - 1))) = Some ((k # ks') ! length ls)"
      by (cases ls) auto
    then show ?thesis
      using Cons.IH [of "Some k" ks'] by (auto simp: Cons)
  qed
qed

lemma ordered_plug:
  "ordered None None (plug C t) = (orderedCtx C \<and> ordered (ctxLo C) (ctxHi C) t)"
proof -
  have gen: "\<And>t. ordered None None (plug C t) = (orderedCtx C \<and> ordered (ctxLo C) (ctxHi C) t)"
  proof (induction C)
    case Nil
    then show ?case by simp
  next
    case (Cons f C)
    obtain p ks ls rs where f: "f = Frame p ks ls rs" by (cases f)
    show ?case
      using Cons.IH [of "plug1 f t"] orderedList_hole [of "ctxLo C" ks "ctxHi C" ls t rs p]
      by (auto simp: f)
  qed
  show ?thesis by (rule gen)
qed

subsection \<open>Routing stays within the bounds\<close>

lemma scanKeys_le: "j < scanKeys key ks \<Longrightarrow> ks ! j \<le> key"
proof (induction ks arbitrary: j)
  case Nil
  then show ?case by simp
next
  case (Cons k ks)
  then show ?case by (cases j) (auto split: if_splits)
qed

lemma scanKeys_gt: "scanKeys key ks < length ks \<Longrightarrow> key < ks ! scanKeys key ks"
  by (induction ks) auto

lemma scanKeys_length: "scanKeys key ks \<le> length ks"
  by (induction ks) auto

lemma route_bounds:
  "list_all (onPath key) C \<Longrightarrow> geLo (ctxLo C) key \<and> ltHi (ctxHi C) key"
proof (induction C)
  case Nil
  then show ?case by simp
next
  case (Cons f C)
  obtain p ks ls rs where f: "f = Frame p ks ls rs" by (cases f)
  from Cons.prems have i: "scanKeys key ks = length ls" by (simp add: f)
  have "ls \<noteq> [] \<Longrightarrow> ks ! (length ls - 1) \<le> key"
    using scanKeys_le [of "length ls - 1" key ks] i by (cases ls) auto
  moreover have "length ls < length ks \<Longrightarrow> key < ks ! length ls"
    using scanKeys_gt [of key ks] i by simp
  ultimately show ?case using Cons by (auto simp: f)
qed

subsection \<open>Absorbing and halving keep the order\<close>

lemma ltHi_trans: "ltHi hi k' \<Longrightarrow> k < k' \<Longrightarrow> ltHi hi k"
  by (cases hi) auto

lemma gtLo_trans: "gtLo lo k \<Longrightarrow> k < k' \<Longrightarrow> gtLo lo k'"
  by (cases lo) auto

lemma orderedList_absorb:
  "orderedList lo ks hi (ls @ emptyLeaf # rs) \<Longrightarrow>
   ordered (holeLo lo (Frame p ks ls rs)) (Some k) l \<Longrightarrow>
   ordered (Some k) (holeHi hi (Frame p ks ls rs)) r \<Longrightarrow>
   gtLo (holeLo lo (Frame p ks ls rs)) k \<Longrightarrow> ltHi (holeHi hi (Frame p ks ls rs)) k \<Longrightarrow>
   orderedList lo (take (length ls) ks @ k # drop (length ls) ks) hi (ls @ l # r # rs)"
proof (induction ls arbitrary: ks lo)
  case Nil
  show ?case
  proof (cases ks)
    case Nil
    then show ?thesis using Nil.prems by (cases rs) auto
  next
    case (Cons k0 ks')
    then show ?thesis using Nil.prems by (auto intro: ltHi_trans)
  qed
next
  case (Cons x ls)
  show ?case
  proof (cases ks)
    case Nil
    then show ?thesis using Cons.prems(1) by (cases ls) auto
  next
    case (Cons k0 ks')
    have eq: "(if ls = [] then Some k0 else Some (ks' ! (length ls - 1))) = Some ((k0 # ks') ! length ls)"
      by (cases ls) auto
    have "orderedList (Some k0) (take (length ls) ks' @ k # drop (length ls) ks') hi (ls @ l # r # rs)"
      using Cons.prems eq
      by (intro Cons.IH) (auto simp: Cons)
    then show ?thesis using Cons.prems(1) by (auto simp: Cons)
  qed
qed

lemma orderedList_split:
  "orderedList lo ks hi ts \<Longrightarrow> m < length ks \<Longrightarrow>
   orderedList lo (take m ks) (Some (ks ! m)) (take (Suc m) ts)
   \<and> orderedList (Some (ks ! m)) (drop (Suc m) ks) hi (drop (Suc m) ts)
   \<and> gtLo lo (ks ! m) \<and> ltHi hi (ks ! m)"
proof (induction m arbitrary: ks ts lo)
  case 0
  then obtain k ks' where ks: "ks = k # ks'" by (cases ks) auto
  from 0 obtain t ts' where ts: "ts = t # ts'" by (cases ts) (auto simp: ks)
  show ?case using 0 by (auto simp: ks ts)
next
  case (Suc m)
  then obtain k ks' where ks: "ks = k # ks'" by (cases ks) auto
  from Suc obtain t ts' where ts: "ts = t # ts'" by (cases ts) (auto simp: ks)
  have "orderedList (Some k) ks' hi ts'" "m < length ks'"
    using Suc.prems by (auto simp: ks ts)
  from Suc.IH [OF this]
  show ?case using Suc.prems by (auto simp: ks ts intro: gtLo_trans)
qed

lemma ordered_absorb:
  assumes "ordered LO HI (plug1 f emptyLeaf)"
    and "ordered (holeLo LO f) (Some k) l" and "ordered (Some k) (holeHi HI f) r"
    and "gtLo (holeLo LO f) k" and "ltHi (holeHi HI f) k"
  shows "ordered LO HI (absorb f l k r)"
proof -
  obtain p ks ls rs where f: "f = Frame p ks ls rs" by (cases f)
  show ?thesis
    using orderedList_absorb [of LO ks HI ls rs p k l r] assms by (simp add: f)
qed

lemma ordered_halves_node:
  assumes "ordered lo hi (ANode p ks ts)" and "ks \<noteq> []" and "halves n (ANode p ks ts) = (l, k, r)"
  shows "ordered lo (Some k) l \<and> ordered (Some k) hi r \<and> gtLo lo k \<and> ltHi hi k"
proof -
  have "length ks div 2 < length ks" using assms(2) by (cases ks) auto
  from orderedList_split [OF _ this, of lo hi ts] assms(1,3)
  show ?thesis by auto
qed

lemma ordered_halves_leaf:
  assumes "ordered lo hi (ALeaf a ks vs nx)" and "2 \<le> length ks"
    and "halves n (ALeaf a ks vs nx) = (l, k, r)"
  shows "ordered lo (Some k) l \<and> ordered (Some k) hi r \<and> gtLo lo k \<and> ltHi hi k"
proof -
  define m where "m = length ks div 2"
  have m: "0 < m" "m < length ks" using assms(2) by (auto simp: m_def)
  have ks: "ks = take m ks @ drop m ks" by simp
  have srt: "sorted_wrt (<) (take m ks @ drop m ks)" using assms(1) by simp
  have hd: "hd (drop m ks) = ks ! m" using m by (simp add: hd_drop_conv_nth)
  have kin: "ks ! m \<in> set (drop m ks)"
    using m by (metis drop_eq_Nil hd hd_in_set leD)
  have lt: "\<And>x. x \<in> set (take m ks) \<Longrightarrow> x < ks ! m"
    using srt kin unfolding sorted_wrt_append by blast
  have ge: "\<And>x. x \<in> set (drop m ks) \<Longrightarrow> ks ! m \<le> x"
  proof -
    fix x assume "x \<in> set (drop m ks)"
    then obtain j where "j < length (drop m ks)" "drop m ks ! j = x"
      by (auto simp: in_set_conv_nth)
    then have "x = ks ! (m + j)" "m + j < length ks" by auto
    moreover have "sorted_wrt (<) ks" using assms(1) by simp
    ultimately show "ks ! m \<le> x"
      using sorted_wrt_nth_less [of "(<)" ks m "m + j"] by (cases j) auto
  qed
  have bounds: "\<And>x. x \<in> set ks \<Longrightarrow> geLo lo x \<and> ltHi hi x" using assms(1) by simp
  have k0: "ks ! 0 \<in> set (take m ks)" using m by (auto simp: in_set_conv_nth intro!: exI [of _ 0])
  have "ks ! 0 \<in> set ks" using m by (intro nth_mem) auto
  then have "geLo lo (ks ! 0)" using bounds by blast
  moreover have "ks ! 0 < ks ! m" using lt k0 by simp
  ultimately have sab: "gtLo lo (ks ! m)" by (cases lo) auto
  have "ks ! m \<in> set ks" using m by (intro nth_mem) auto
  then have bel: "ltHi hi (ks ! m)" using bounds by blast
  have l: "l = ALeaf a (take m ks) (take m vs) (Some n)"
    and k: "k = ks ! m" and r: "r = ALeaf n (drop m ks) (drop m vs) nx"
    using assms(3) hd by (auto simp: m_def)
  have len: "length vs = length ks" using assms(1) by simp
  have "ordered lo (Some k) l"
    using assms(1) lt len by (auto simp: l k sorted_wrt_take dest: in_set_takeD)
  moreover have "ordered (Some k) hi r"
    using assms(1) ge len by (auto simp: r k sorted_wrt_drop dest: in_set_dropD)
  ultimately show ?thesis using sab bel by (simp add: k)
qed

lemma absorb_node:
  "\<exists>p ks ts. absorb f l k r = ANode p ks ts \<and> ks \<noteq> []"
  by (cases f) auto

lemma ordered_rebuild:
  "orderedCtx C \<Longrightarrow> ordered (ctxLo C) (Some k) l \<Longrightarrow> ordered (Some k) (ctxHi C) r \<Longrightarrow>
   gtLo (ctxLo C) k \<Longrightarrow> ltHi (ctxHi C) k \<Longrightarrow> ordered None None (rebuild n C (l, k, r))"
proof (induction C arbitrary: n l k r)
  case Nil
  then show ?case by simp
next
  case (Cons f C)
  obtain p ks ts where node: "absorb f l k r = ANode p ks ts" "ks \<noteq> []"
    using absorb_node by blast
  have ord: "ordered (ctxLo C) (ctxHi C) (absorb f l k r)"
    using Cons.prems by (intro ordered_absorb) auto
  show ?case
  proof (cases "length (keysOf (absorb f l k r)) \<ge> kOrder")
    case True
    obtain l' k' r' where h: "halves n (ANode p ks ts) = (l', k', r')"
      by (cases "halves n (ANode p ks ts)") auto
    from ordered_halves_node [OF ord [unfolded node] node(2) h] Cons.prems(1)
    have "ordered None None (rebuild (Suc n) C (l', k', r'))"
      by (intro Cons.IH) auto
    then show ?thesis using True h by (simp add: node del: halves.simps)
  next
    case False
    then show ?thesis using ord Cons.prems(1) by (simp add: ordered_plug)
  qed
qed

lemma small_plug: "small (plug C t) = (list_all smallF C \<and> small t)"
proof (induction C arbitrary: t)
  case Nil
  then show ?case by simp
next
  case (Cons f C)
  then show ?case by (cases f) auto
qed

lemma small_halves_node:
  assumes "length ks \<le> kOrder" "\<forall>t \<in> set ts. small t" "halves n (ANode p ks ts) = (l, k, r)"
    "ks \<noteq> []"
  shows "small l \<and> small r"
proof -
  have "length ks div 2 < kOrder" "length ks - Suc (length ks div 2) < kOrder"
    using assms(1,4) by (auto simp: kOrder_def)
  then show ?thesis
    using assms(2,3) by (auto dest!: in_set_takeD in_set_dropD)
qed

lemma small_rebuild:
  "list_all smallF C \<Longrightarrow> small l \<Longrightarrow> small r \<Longrightarrow> small (rebuild n C (l, k, r))"
proof (induction C arbitrary: n l k r)
  case Nil
  then show ?case by (simp add: kOrder_def)
next
  case (Cons f C)
  obtain p ks ls rs where f: "f = Frame p ks ls rs" by (cases f)
  define ks' where "ks' = take (length ls) ks @ k # drop (length ls) ks"
  define ts' where "ts' = ls @ l # r # rs"
  have node: "absorb f l k r = ANode p ks' ts'" by (simp add: f ks'_def ts'_def)
  have len: "length ks' \<le> kOrder" "ks' \<noteq> []" using Cons.prems(1) by (auto simp: f ks'_def)
  have sm: "\<forall>t \<in> set ts'. small t" using Cons.prems by (auto simp: f ts'_def)
  show ?case
  proof (cases "length ks' \<ge> kOrder")
    case True
    obtain l' k' r' where h: "halves n (ANode p ks' ts') = (l', k', r')"
      by (cases "halves n (ANode p ks' ts')") auto
    from small_halves_node [OF len(1) sm h len(2)] Cons.prems(1)
    have "small (rebuild (Suc n) C (l', k', r'))"
      by (intro Cons.IH) auto
    then show ?thesis using True h by (simp add: node del: halves.simps)
  next
    case False
    then show ?thesis using sm Cons.prems(1) by (simp add: node small_plug)
  qed
qed

lemma leaves_plug: "leaves (plug C t) = preLeaves C @ leaves t @ postLeaves C"
proof (induction C arbitrary: t)
  case Nil
  then show ?case by simp
next
  case (Cons f C)
  then show ?case by (cases f) auto
qed

lemma leaves_halves_node:
  "halves n (ANode p ks ts) = (l, k, r) \<Longrightarrow> leaves l @ leaves r = leaves (ANode p ks ts)"
proof -
  assume "halves n (ANode p ks ts) = (l, k, r)"
  then have "leaves l @ leaves r
               = concat (map leaves (take (Suc (length ks div 2)) ts @ drop (Suc (length ks div 2)) ts))"
    by (auto simp del: append_take_drop_id)
  then show ?thesis by simp
qed

lemma leaves_rebuild:
  "leaves (rebuild n C (l, k, r)) = preLeaves C @ leaves l @ leaves r @ postLeaves C"
proof (induction C arbitrary: n l k r)
  case Nil
  then show ?case by simp
next
  case (Cons f C)
  obtain p ks ls rs where f: "f = Frame p ks ls rs" by (cases f)
  define ks' where "ks' = take (length ls) ks @ k # drop (length ls) ks"
  define ts' where "ts' = ls @ l # r # rs"
  have node: "absorb f l k r = ANode p ks' ts'" by (simp add: f ks'_def ts'_def)
  have lv: "leaves (ANode p ks' ts') = concat (map leaves ls) @ leaves l @ leaves r @ concat (map leaves rs)"
    by (simp add: ts'_def)
  have pp: "preLeaves (f # C) = preLeaves C @ concat (map leaves ls)"
    "postLeaves (f # C) = concat (map leaves rs) @ postLeaves C"
    by (simp_all add: f)
  show ?case
  proof (cases "length ks' \<ge> kOrder")
    case True
    obtain l' k' r' where h: "halves n (ANode p ks' ts') = (l', k', r')"
      by (cases "halves n (ANode p ks' ts')") auto
    have "leaves (rebuild (Suc n) C (l', k', r'))
            = preLeaves C @ (leaves l' @ leaves r') @ postLeaves C"
      using Cons.IH [of "Suc n" l' k' r'] by simp
    also have "\<dots> = preLeaves C @ leaves (ANode p ks' ts') @ postLeaves C"
      unfolding leaves_halves_node [OF h] ..
    finally show ?thesis using True h lv by (simp add: node pp del: halves.simps leaves.simps)
  next
    case False
    then show ?thesis using lv by (simp add: node leaves_plug pp del: leaves.simps)
  qed
qed

subsection \<open>Addresses stay distinct\<close>

lemma distinct_rebuild:
  "distinct (ctxAddrs C @ addrs l @ addrs r) \<Longrightarrow>
   (\<And>a. a \<in> set (ctxAddrs C @ addrs l @ addrs r) \<Longrightarrow> a < n) \<Longrightarrow>
   distinct (addrs (rebuild n C (l, k, r)))"
proof (induction C arbitrary: n l k r)
  case Nil
  then show ?case by fastforce
next
  case (Cons f C)
  obtain p ks ls rs where f: "f = Frame p ks ls rs" by (cases f)
  define ks' where "ks' = take (length ls) ks @ k # drop (length ls) ks"
  define ts' where "ts' = ls @ l # r # rs"
  have node: "absorb f l k r = ANode p ks' ts'" by (simp add: f ks'_def ts'_def)
  show ?case
  proof (cases "length ks' \<ge> kOrder")
    case True
    define m where "m = Suc (length ks' div 2)"
    let ?l = "ANode p (take (length ks' div 2) ks') (take m ts')"
    let ?r = "ANode n (drop m ks') (drop m ts')"
    have h: "halves n (ANode p ks' ts') = (?l, ks' ! (length ks' div 2), ?r)"
      by (simp add: m_def)
    have "distinct (ctxAddrs C @ addrs ?l @ addrs ?r)
            \<and> (\<forall>a \<in> set (ctxAddrs C @ addrs ?l @ addrs ?r). a < Suc n)"
      using Cons.prems unfolding f
      by (intro fresh_distinct [OF split_addrs [OF ts'_def]]) auto
    then have "distinct (addrs (rebuild (Suc n) C (?l, ks' ! (length ks' div 2), ?r)))"
      by (intro Cons.IH) auto
    then show ?thesis using True h by (simp add: node del: halves.simps addrs.simps)
  next
    case False
    have "mset (addrs (plug C (ANode p ks' ts'))) = mset (ctxAddrs (f # C) @ addrs l @ addrs r)"
      by (simp add: mset_addrs_plug f ts'_def ac_simps)
    then have "distinct (addrs (plug C (ANode p ks' ts')))"
      using Cons.prems(1) by (metis mset_eq_imp_distinct_iff)
    then show ?thesis using False by (simp add: node)
  qed
qed

lemma linked_append_Cons:
  "linked (xs @ y # ys) e = (linked xs (Some (fst y)) \<and> linked (y # ys) e)"
proof (induction xs)
  case Nil
  then show ?case by simp
next
  case (Cons x xs)
  obtain a ks vs nx where x: "x = (a, ks, vs, nx)" by (cases x)
  show ?case using Cons by (cases xs) (auto simp: x)
qed

lemma linked_replace1:
  "linked (pre @ (a, ks, vs, nx) # post) e \<Longrightarrow> linked (pre @ (a, ks', vs', nx) # post) e"
  by (simp add: linked_append_Cons)

lemma linked_replace2:
  "linked (pre @ (a, ks, vs, nx) # post) e \<Longrightarrow>
   linked (pre @ (a, ks1, vs1, Some n) # (n, ks2, vs2, nx) # post) e"
  by (simp add: linked_append_Cons)

lemma entries_ALeaf [simp]: "entries (ALeaf a ks vs nx) = zip ks vs"
  by (simp add: entries_def)

lemma entries_ANode: "entries (ANode a ks ts) = concat (map entries ts)"
  by (induction ts) (simp_all add: entries_def)

lemma ordered_entries:
  "ordered lo hi t \<Longrightarrow>
     sorted_wrt (<) (map fst (entries t)) \<and> (\<forall>k \<in> fst ` set (entries t). geLo lo k \<and> ltHi hi k)"
  and orderedList_entries:
  "orderedList lo ks hi ts \<Longrightarrow>
     sorted_wrt (<) (map fst (concat (map entries ts)))
     \<and> (\<forall>k \<in> fst ` set (concat (map entries ts)). geLo lo k \<and> ltHi hi k)"
proof (induction lo hi t and lo ks hi ts rule: ordered_orderedList.induct)
  case (1 lo hi a ks vs nx)
  then show ?case by (auto dest: set_zip_leftD)
next
  case (2 lo hi a ks ts)
  then show ?case by (simp add: entries_ANode)
next
  case (3 lo hi t)
  then show ?case by simp
next
  case (4 lo k ks hi t ts)
  from 4 have t: "sorted_wrt (<) (map fst (entries t))"
    "\<And>x. x \<in> fst ` set (entries t) \<Longrightarrow> geLo lo x \<and> x < k"
    and ts: "sorted_wrt (<) (map fst (concat (map entries ts)))"
    "\<And>x. x \<in> fst ` set (concat (map entries ts)) \<Longrightarrow> k \<le> x \<and> ltHi hi x"
    and k: "gtLo lo k" "ltHi hi k"
    by auto
  have a: "\<And>x. x \<in> fst ` set (entries t) \<Longrightarrow> ltHi hi x"
    using t(2) k(2) ltHi_trans by blast
  have b: "\<And>x. x \<in> fst ` set (concat (map entries ts)) \<Longrightarrow> geLo lo x"
    using ts(2) k(1) by (cases lo) force+
  have c: "\<And>x y. x \<in> fst ` set (entries t) \<Longrightarrow> y \<in> fst ` set (concat (map entries ts)) \<Longrightarrow> x < y"
    using t(2) ts(2) by force
  have "sorted_wrt (<) (map fst (entries t) @ map fst (concat (map entries ts)))"
    unfolding sorted_wrt_append using t(1) ts(1) c by simp
  moreover have "\<forall>x \<in> fst ` set (entries t) \<union> fst ` set (concat (map entries ts)). geLo lo x \<and> ltHi hi x"
    using t(2) ts(2) a b by blast
  ultimately show ?case by (simp add: image_Un)
qed simp_all

lemma entries_plug:
  "entries (plug C t) = concat (map leafEntries (preLeaves C)) @ entries t
                          @ concat (map leafEntries (postLeaves C))"
  by (simp add: entries_def leaves_plug)

subsection \<open>Every key has a path\<close>

lemma path_exists:
  "ordered lo hi t \<Longrightarrow>
   \<exists>C a ks vs nx. t = plug C (ALeaf a ks vs nx) \<and> list_all (onPath key) C"
proof (induction t arbitrary: lo hi)
  case (ALeaf a ks vs nx)
  have "ALeaf a ks vs nx = plug [] (ALeaf a ks vs nx) \<and> list_all (onPath key) []" by simp
  then show ?case by blast
next
  case (ANode p ks ts)
  define i where "i = scanKeys key ks"
  have len: "length ts = Suc (length ks)"
    using ANode.prems orderedList_length by simp
  have i: "i < length ts" using scanKeys_length [of key ks] len by (simp add: i_def)
  have ts: "ts = take i ts @ ts ! i # drop (Suc i) ts"
    using i by (rule id_take_nth_drop)
  have "orderedList lo ks hi (take i ts @ ts ! i # drop (Suc i) ts)"
    using ANode.prems ts by simp
  then have "\<exists>lo' hi'. ordered lo' hi' (ts ! i)"
    using orderedList_hole [of lo ks hi "take i ts" "ts ! i" "drop (Suc i) ts" p] by blast
  then obtain lo' hi' where "ordered lo' hi' (ts ! i)" by blast
  moreover have "ts ! i \<in> set ts" using i by simp
  ultimately obtain C a ks' vs nx where
    sub: "ts ! i = plug C (ALeaf a ks' vs nx)" "list_all (onPath key) C"
    using ANode.IH by blast
  let ?f = "Frame p ks (take i ts) (drop (Suc i) ts)"
  have "ANode p ks ts = plug (C @ [?f]) (ALeaf a ks' vs nx)"
    using ts sub(1) by (simp add: plug_append)
  moreover have "list_all (onPath key) (C @ [?f])"
    using sub(2) i by (simp add: i_def)
  ultimately show ?case by blast
qed

lemma orderedCtx_shape: "orderedCtx C \<Longrightarrow> list_all shapeF C"
proof (induction C)
  case Nil
  then show ?case by simp
next
  case (Cons f C)
  obtain p ks ls rs where f: "f = Frame p ks ls rs" by (cases f)
  have "orderedList (ctxLo C) ks (ctxHi C) (ls @ emptyLeaf # rs)"
    using Cons.prems by (simp add: f)
  then have "length (ls @ emptyLeaf # rs) = Suc (length ks)"
    by (rule orderedList_length)
  then show ?case using Cons by (simp add: f)
qed

lemma insert_tree_found:
  "root t = Some r \<Longrightarrow> findLeaf t key = Some (Some a) \<Longrightarrow> a < length (heap t) \<Longrightarrow>
   heap t ! a = BPlusLeafNode ks vs nx \<Longrightarrow>
   insert_tree t key val =
     (case keyIndex ks key of
        Some i \<Rightarrow>
          if i < length vs then
            Some (Completed (t\<lparr>heap := (heap t)[a := BPlusLeafNode ks (vs[i := val]) nx]\<rparr>))
          else None
      | None \<Rightarrow>
          (case bubble (length ks) (ks @ [key]) (vs @ [val]) of
             None \<Rightarrow> None
           | Some (ks', vs') \<Rightarrow>
               if kOrder \<le> length ks'
               then splitLeafNode (t\<lparr>heap := (heap t)[a := BPlusLeafNode ks' vs' nx]\<rparr>) a
               else Some (Completed (t\<lparr>heap := (heap t)[a := BPlusLeafNode ks' vs' nx]\<rparr>))))"
  by (simp add: insert_tree_def Let_def split: option.splits)

lemma findLeaf_plug:
  assumes "root t = Some (addrOf (plug C (ALeaf a ks vs nx)))"
    and "repr (heap t) (plug C (ALeaf a ks vs nx))" and "list_all (onPath key) C"
  shows "findLeaf t key = Some (Some a)"
proof -
  have ctx: "reprCtx (heap t) C a" and cell: "a < length (heap t)" "heap t ! a = BPlusLeafNode ks vs nx"
    using assms(2) by (auto simp: repr_plug)
  have "findLeaf t key = findLeafLoop (heap t) (Some (addrOf (plug C (ALeaf a ks vs nx)))) key"
    by (simp add: findLeaf_def assms(1))
  also have "\<dots> = findLeafLoop (heap t) (Some (addrOf (ALeaf a ks vs nx))) key"
    using ctx assms(3) by (intro findLeafLoop_plug) simp_all
  also have "\<dots> = Some (Some a)"
    using cell by (simp add: findLeafLoop_leaf)
  finally show ?thesis .
qed

lemma distinct_plug: "distinct (addrs (plug C t)) = distinct (ctxAddrs C @ addrs t)"
proof -
  have "mset (addrs (plug C t)) = mset (ctxAddrs C @ addrs t)"
    by (simp add: mset_addrs_plug)
  then show ?thesis by (rule mset_eq_imp_distinct_iff)
qed

lemma leaf_write:
  assumes "root t = Some (addrOf (plug C (ALeaf a ks vs nx)))"
    and "repr (heap t) (plug C (ALeaf a ks vs nx))"
    and "distinct (addrs (plug C (ALeaf a ks vs nx)))"
    and "t' = t\<lparr>heap := (heap t)[a := BPlusLeafNode ks' vs' nx']\<rparr>"
  shows "root t' = Some (addrOf (plug C (ALeaf a ks' vs' nx')))"
    and "repr (heap t') (plug C (ALeaf a ks' vs' nx'))"
    and "reprCtx (heap t') C a"
proof -
  have ctx: "reprCtx (heap t) C a" and cell: "a < length (heap t)"
    using assms(2) by (auto simp: repr_plug)
  have "a \<notin> set (ctxAddrs C)" using assms(3) by (simp add: distinct_plug)
  then show c: "reprCtx (heap t') C a" using ctx by (simp add: assms(4) reprCtx_update)
  show "root t' = Some (addrOf (plug C (ALeaf a ks' vs' nx')))"
    using assms(1) addrOf_plug_cong [of "ALeaf a ks vs nx" "ALeaf a ks' vs' nx'" C]
    by (simp add: assms(4))
  show "repr (heap t') (plug C (ALeaf a ks' vs' nx'))"
    using c cell by (simp add: repr_plug assms(4))
qed

lemma splitLeafHalves_step:
  assumes "a < length (heap t1)" "heap t1 ! a = BPlusLeafNode ks vs nx"
    and "length vs = length ks" "ks \<noteq> []"
    and "t2 = t1\<lparr>heap := (heap t1 @ [BPlusLeafNode (drop (length ks div 2) ks)
                                       (drop (length ks div 2) vs) nx])
                           [a := BPlusLeafNode (take (length ks div 2) ks)
                                   (take (length ks div 2) vs) (Some (length (heap t1)))]\<rparr>"
  shows "splitLeafHalves t1 a = Some (t2, hd (drop (length ks div 2) ks), length (heap t1))"
proof -
  have "length ks div 2 < length ks" using assms(4) by (cases ks) auto
  then have "\<not> length ks \<le> length ks div 2" by simp
  then show ?thesis
    using assms by (simp add: splitLeafHalves_def Let_def)
qed

lemma split_leaf_root:
  assumes root: "root t1 = Some a"
    and cell: "a < length (heap t1)" "heap t1 ! a = BPlusLeafNode ks vs nx"
    and len: "length vs = length ks" "ks \<noteq> []"
  shows "\<exists>t'. splitLeafNode t1 a = Some (Completed t')
           \<and> root t' = Some (addrOf (rebuild (Suc (length (heap t1))) [] (halves (length (heap t1)) (ALeaf a ks vs nx))))
           \<and> repr (heap t') (rebuild (Suc (length (heap t1))) [] (halves (length (heap t1)) (ALeaf a ks vs nx)))"
proof -
  define n where "n = length (heap t1)"
  define m where "m = length ks div 2"
  define t2 where "t2 = t1\<lparr>heap := (heap t1 @ [BPlusLeafNode (drop m ks) (drop m vs) nx])
                           [a := BPlusLeafNode (take m ks) (take m vs) (Some n)]\<rparr>"
  have sp: "splitLeafHalves t1 a = Some (t2, hd (drop m ks), n)"
    unfolding n_def m_def
    by (rule splitLeafHalves_step [OF cell len]) (simp add: t2_def m_def n_def)
  have root2: "root t2 = Some a" by (simp add: t2_def root)
  have len2: "length (heap t2) = Suc n" by (simp add: t2_def n_def)
  have an: "a < n" "a \<noteq> n" using cell(1) by (auto simp: n_def)
  have c1: "heap t2 ! a = BPlusLeafNode (take m ks) (take m vs) (Some n)"
    using cell(1) by (simp add: t2_def)
  have c2: "heap t2 ! n = BPlusLeafNode (drop m ks) (drop m vs) nx"
    using an by (simp add: t2_def n_def)
  have sl: "splitLeafNode t1 a = Some (Completed (growRoot t2 (hd (drop m ks)) a n))"
    by (simp add: splitLeafNode_def sp root2)
  have hv: "halves n (ALeaf a ks vs nx)
             = (ALeaf a (take m ks) (take m vs) (Some n), hd (drop m ks), ALeaf n (drop m ks) (drop m vs) nx)"
    by (simp add: m_def)
  have "repr (heap (growRoot t2 (hd (drop m ks)) a n))
          (ANode (Suc n) [hd (drop m ks)]
             [ALeaf a (take m ks) (take m vs) (Some n), ALeaf n (drop m ks) (drop m vs) nx])"
    using c1 c2 an by (simp add: growRoot_def len2 nth_append)
  moreover have "root (growRoot t2 (hd (drop m ks)) a n) = Some (Suc n)"
    by (simp add: growRoot_def len2)
  ultimately show ?thesis
    unfolding sl n_def [symmetric] hv by simp
qed

lemma split_leaf_inner:
  assumes root: "root t1 = Some (addrOf (plug (f # C) (ALeaf a ks vs nx)))"
    and rep: "repr (heap t1) (plug (f # C) (ALeaf a ks vs nx))"
    and dist: "distinct (addrs (plug (f # C) (ALeaf a ks vs nx)))"
    and shape: "list_all shapeF (f # C)"
    and len: "length vs = length ks" "ks \<noteq> []"
  shows "\<exists>t'. splitLeafNode t1 a = Some (Completed t')
           \<and> root t' = Some (addrOf (rebuild (Suc (length (heap t1))) (f # C) (halves (length (heap t1)) (ALeaf a ks vs nx))))
           \<and> repr (heap t') (rebuild (Suc (length (heap t1))) (f # C) (halves (length (heap t1)) (ALeaf a ks vs nx)))"
proof -
  define n where "n = length (heap t1)"
  define m where "m = length ks div 2"
  define t2 where "t2 = t1\<lparr>heap := (heap t1 @ [BPlusLeafNode (drop m ks) (drop m vs) nx])
                           [a := BPlusLeafNode (take m ks) (take m vs) (Some n)]\<rparr>"
  let ?l = "ALeaf a (take m ks) (take m vs) (Some n)"
  let ?r = "ALeaf n (drop m ks) (drop m vs) nx"
  have ctx: "reprCtx (heap t1) (f # C) a" and cell: "a < length (heap t1)"
    "heap t1 ! a = BPlusLeafNode ks vs nx"
    using rep by (auto simp: repr_plug simp del: plug.simps reprCtx.simps)
  have dC: "distinct (ctxAddrs (f # C))" "a \<notin> set (ctxAddrs (f # C))"
    using dist by (simp_all add: distinct_plug del: plug.simps)
  have sp: "splitLeafHalves t1 a = Some (t2, hd (drop m ks), n)"
    unfolding n_def m_def
    by (rule splitLeafHalves_step [OF cell len]) (simp add: t2_def m_def n_def)
  have root2: "root t2 = Some (faddr (last (f # C)))"
    using root unfolding addrOf_plug_Cons by (simp add: t2_def)
  have "faddr (last (f # C)) \<noteq> a"
    using last_in_ctxAddrs [of "f # C"] dC(2) by auto
  then have sl: "splitLeafNode t1 a = insertInternalUpKey t2 (hd (drop m ks)) (addrOf ?l) (addrOf ?r)"
    by (simp add: splitLeafNode_def sp root2 insertInternalNode_eq)
  have len2: "length (heap t2) = Suc n" by (simp add: t2_def n_def)
  have an: "a < n" "a \<noteq> n" using cell(1) by (auto simp: n_def)
  have hv: "halves n (ALeaf a ks vs nx) = (?l, hd (drop m ks), ?r)"
    by (simp add: m_def)
  have less: "\<And>b. b \<in> set (ctxAddrs (f # C)) \<Longrightarrow> b < n"
    using reprCtx_less [OF ctx] by (simp add: n_def)
  have "\<exists>t'. insertInternalUpKey t2 (hd (drop m ks)) (addrOf ?l) (addrOf ?r) = Some (Completed t')
            \<and> root t' = Some (addrOf (rebuild (length (heap t2)) (f # C) (?l, hd (drop m ks), ?r)))
            \<and> repr (heap t') (rebuild (length (heap t2)) (f # C) (?l, hd (drop m ks), ?r))"
  proof (rule cascade)
    show "root t2 = Some (addrOf (plug (f # C) ?l))"
      using root2 unfolding addrOf_plug_Cons .
    show "reprCtx (heap t2) (f # C) (addrOf ?l)"
      using ctx dC(2) by (simp add: t2_def reprCtx_update reprCtx_append del: reprCtx.simps)
    show "repr (heap t2) ?l" using cell(1) by (simp add: t2_def)
    show "repr (heap t2) ?r" using an by (simp add: t2_def n_def)
    show "distinct (ctxAddrs (f # C) @ addrs ?l @ addrs ?r)"
      using dC an less by (auto simp del: ctxAddrs.simps)
    show "list_all shapeF (f # C)" by (rule shape)
  qed
  then show ?thesis
    unfolding sl n_def [symmetric] hv len2 .
qed

lemma insert_step:
  assumes root: "root t = Some (addrOf (plug C (ALeaf a ks vs nx)))"
    and rep: "repr (heap t) (plug C (ALeaf a ks vs nx))"
    and dist: "distinct (addrs (plug C (ALeaf a ks vs nx)))"
    and path: "list_all (onPath key) C"
    and shape: "list_all shapeF C"
    and leaf: "length vs = length ks" "sorted_wrt (<) ks"
  shows "\<exists>t'. insert_tree t key val = Some (Completed t')
           \<and> root t' = Some (addrOf (insLeaf (length (heap t)) C (ALeaf a ks vs nx) key val))
           \<and> repr (heap t') (insLeaf (length (heap t)) C (ALeaf a ks vs nx) key val)"
proof -
  have cell: "a < length (heap t)" "heap t ! a = BPlusLeafNode ks vs nx"
    using rep by (auto simp: repr_plug)
  have fl: "findLeaf t key = Some (Some a)"
    using root rep path by (rule findLeaf_plug)
  note ins = insert_tree_found [OF root fl cell, of val]
  show ?thesis
  proof (cases "keyIndex ks key")
    case (Some i)
    then have "i < length vs" using keyIndex_Some [of ks key i] leaf(1) by simp
    then show ?thesis
      unfolding ins using Some leaf_write [OF root rep dist refl, of ks "vs[i := val]" nx]
      by simp
  next
    case None
    then have "key \<notin> set ks" by (simp add: keyIndex_None)
    from bubble_append [OF leaf this, of val]
    obtain ks' vs' where b: "bubble (length ks) (ks @ [key]) (vs @ [val]) = Some (ks', vs')"
      "length ks' = Suc (length ks)" "length vs' = length ks'"
      by blast
    define t1 where "t1 = t\<lparr>heap := (heap t)[a := BPlusLeafNode ks' vs' nx]\<rparr>"
    note w = leaf_write [OF root rep dist t1_def]
    show ?thesis
    proof (cases "kOrder \<le> length ks'")
      case False
      then show ?thesis
        unfolding ins using None b w by (simp add: t1_def)
    next
      case True
      have ne: "ks' \<noteq> []" using b(2) by auto
      have len1: "length (heap t1) = length (heap t)" by (simp add: t1_def)
      have dist1: "distinct (addrs (plug C (ALeaf a ks' vs' nx)))"
        using dist by (simp add: distinct_plug)
      have "\<exists>t'. splitLeafNode t1 a = Some (Completed t')
           \<and> root t' = Some (addrOf (rebuild (Suc (length (heap t1))) C (halves (length (heap t1)) (ALeaf a ks' vs' nx))))
           \<and> repr (heap t') (rebuild (Suc (length (heap t1))) C (halves (length (heap t1)) (ALeaf a ks' vs' nx)))"
      proof (cases C)
        case Nil
        have "root t1 = Some a" "a < length (heap t1)" "heap t1 ! a = BPlusLeafNode ks' vs' nx"
          using w(1,2) by (simp_all add: Nil)
        from split_leaf_root [OF this b(3) ne] show ?thesis by (simp only: Nil)
      next
        case (Cons f C')
        show ?thesis
          using split_leaf_inner [OF w(1) [unfolded Cons] w(2) [unfolded Cons]
              dist1 [unfolded Cons] shape [unfolded Cons] b(3) ne]
          by (simp only: Cons)
      qed
      then show ?thesis
        unfolding ins len1 using None b True by (simp add: t1_def del: halves.simps)
    qed
  qed
qed

lemma path_keys:
  assumes "orderedCtx C" and "list_all (onPath key) C"
  shows "key \<notin> fst ` set (preEntries C) \<and> key \<notin> fst ` set (postEntries C)"
proof -
  have "ordered (ctxLo C) (ctxHi C) (ALeaf 0 [key] [0] None)"
    using route_bounds [OF assms(2)] by simp
  then have "ordered None None (plug C (ALeaf 0 [key] [0] None))"
    using assms(1) by (simp add: ordered_plug)
  then have "sorted_wrt (<) (map fst (entries (plug C (ALeaf 0 [key] [0] None))))"
    using ordered_entries by blast
  then have "sorted_wrt (<) (map fst (preEntries C) @ key # map fst (postEntries C))"
    by (simp add: entries_plug)
  then show ?thesis by (auto simp: sorted_wrt_append)
qed

lemma zip_update_set:
  assumes "distinct ks" "i < length ks" "length vs = length ks"
  shows "set (zip ks (vs[i := val])) = {(k, v) \<in> set (zip ks vs). k \<noteq> ks ! i} \<union> {(ks ! i, val)}"
proof -
  have "(k, v) \<in> set (zip ks (vs[i := val]))
          \<longleftrightarrow> ((k, v) \<in> set (zip ks vs) \<and> k \<noteq> ks ! i) \<or> (k = ks ! i \<and> v = val)" for k v
  proof
    assume "(k, v) \<in> set (zip ks (vs[i := val]))"
    then obtain j where j: "j < length ks" "ks ! j = k" "vs[i := val] ! j = v"
      using assms(3) by (auto simp: in_set_zip)
    show "((k, v) \<in> set (zip ks vs) \<and> k \<noteq> ks ! i) \<or> (k = ks ! i \<and> v = val)"
    proof (cases "j = i")
      case True
      then show ?thesis using j assms by simp
    next
      case False
      then have "ks ! j \<noteq> ks ! i" using assms(1,2) j(1) by (simp add: nth_eq_iff_index_eq)
      moreover have "(ks ! j, vs ! j) \<in> set (zip ks vs)"
        using j(1) assms(3) by (auto simp: in_set_zip intro!: exI [of _ j])
      ultimately show ?thesis using j False by auto
    qed
  next
    assume r: "((k, v) \<in> set (zip ks vs) \<and> k \<noteq> ks ! i) \<or> (k = ks ! i \<and> v = val)"
    show "(k, v) \<in> set (zip ks (vs[i := val]))"
    proof (cases "k = ks ! i \<and> v = val")
      case True
      then show ?thesis using assms by (auto simp: in_set_zip intro!: exI [of _ i])
    next
      case False
      then obtain j where j: "j < length ks" "ks ! j = k" "vs ! j = v" "k \<noteq> ks ! i"
        using r assms(3) by (auto simp: in_set_zip)
      then have "j \<noteq> i" by auto
      then show ?thesis using j assms(3) by (auto simp: in_set_zip intro!: exI [of _ j])
    qed
  qed
  then show ?thesis by auto
qed

text \<open>What an insertion makes of the leaf it lands in, before any split.\<close>

lemma insLeaf_shape:
  assumes "length vs = length ks" "sorted_wrt (<) ks" "length ks < kOrder"
  shows "\<exists>ks' vs'. length vs' = length ks' \<and> sorted_wrt (<) ks' \<and> set ks' = insert key (set ks)
           \<and> length ks' \<le> kOrder \<and> ks' \<noteq> []
           \<and> set (zip ks' vs') = {(k, v) \<in> set (zip ks vs). k \<noteq> key} \<union> {(key, val)}
           \<and> insLeaf n C (ALeaf a ks vs nx) key val =
               (if kOrder \<le> length ks' then rebuild (Suc n) C (halves n (ALeaf a ks' vs' nx))
                else plug C (ALeaf a ks' vs' nx))"
proof (cases "keyIndex ks key")
  case (Some i)
  then have i: "i < length ks" "ks ! i = key" using keyIndex_Some by auto
  have d: "distinct ks" using assms(2) by (simp add: strict_sorted_iff)
  have "set (zip ks (vs[i := val])) = {(k, v) \<in> set (zip ks vs). k \<noteq> key} \<union> {(key, val)}"
    using zip_update_set [OF d i(1) assms(1), of val] i(2) by simp
  moreover have "set ks = insert key (set ks)" using i by auto
  moreover have "ks \<noteq> []" using i by auto
  ultimately show ?thesis
    using assms Some by (intro exI [of _ ks] exI [of _ "vs[i := val]"]) simp
next
  case None
  then have nk: "key \<notin> set ks" by (simp add: keyIndex_None)
  from bubble_append [OF assms(1,2) nk, of val]
  obtain ks' vs' where b: "bubble (length ks) (ks @ [key]) (vs @ [val]) = Some (ks', vs')"
    "length ks' = Suc (length ks)" "length vs' = length ks'"
    "mset (zip ks' vs') = mset (zip ks vs) + {#(key, val)#}"
    "sorted_wrt (<) ks'" "set ks' = insert key (set ks)"
    by blast
  have "set_mset (mset (zip ks' vs')) = set_mset (mset (zip ks vs) + {#(key, val)#})"
    using b(4) by simp
  then have "set (zip ks' vs') = set (zip ks vs) \<union> {(key, val)}"
    by simp
  moreover have "{(k, v) \<in> set (zip ks vs). k \<noteq> key} = set (zip ks vs)"
    using nk by (auto dest: set_zip_leftD)
  moreover have "ks' \<noteq> []" using b(2) by auto
  ultimately show ?thesis
    using b None assms(3)
    by (intro exI [of _ ks'] exI [of _ vs']) simp
qed

lemma small_halves_leaf:
  assumes "length ks \<le> kOrder" "ks \<noteq> []" "halves n (ALeaf a ks vs nx) = (l, k, r)"
  shows "small l \<and> small r"
proof -
  have "length ks div 2 < kOrder" "length ks - length ks div 2 < kOrder"
    using assms(1,2) by (cases ks; simp add: kOrder_def)+
  then show ?thesis using assms(3) by auto
qed

lemma entries_halves_leaf:
  assumes "halves n (ALeaf a ks vs nx) = (l, k, r)"
  shows "entries l @ entries r = zip ks vs"
proof -
  have "zip (take m ks) (take m vs) @ zip (drop m ks) (drop m vs) = zip ks vs" for m
    by (simp flip: take_zip drop_zip)
  then show ?thesis using assms by auto
qed

lemma entries_rebuild:
  "entries (rebuild n C (l, k, r)) = preEntries C @ entries l @ entries r @ postEntries C"
  by (simp add: entries_def leaves_rebuild)

lemma insLeaf_inv:
  assumes ctx: "orderedCtx C" "list_all smallF C" "list_all (onPath key) C"
    and leaf: "ordered (ctxLo C) (ctxHi C) (ALeaf a ks vs nx)" "length ks < kOrder"
    and dist: "distinct (ctxAddrs C @ [a])" "\<And>b. b \<in> set (ctxAddrs C @ [a]) \<Longrightarrow> b < n"
    and link: "linked (leaves (plug C (ALeaf a ks vs nx))) None"
    and T': "T' = insLeaf n C (ALeaf a ks vs nx) key val"
  shows "distinct (addrs T')" and "ordered None None T'" and "small T'"
    and "linked (leaves T') None"
    and "set (entries T') =
           {(k, v) \<in> set (entries (plug C (ALeaf a ks vs nx))). k \<noteq> key} \<union> {(key, val)}"
proof -
  have lv: "length vs = length ks" "sorted_wrt (<) ks" using leaf(1) by auto
  from insLeaf_shape [OF lv leaf(2), of key val n C a nx]
  obtain ks' vs' where s: "length vs' = length ks'" "sorted_wrt (<) ks'"
    "set ks' = insert key (set ks)" "length ks' \<le> kOrder" "ks' \<noteq> []"
    "set (zip ks' vs') = {(k, v) \<in> set (zip ks vs). k \<noteq> key} \<union> {(key, val)}"
    "insLeaf n C (ALeaf a ks vs nx) key val =
       (if kOrder \<le> length ks' then rebuild (Suc n) C (halves n (ALeaf a ks' vs' nx))
        else plug C (ALeaf a ks' vs' nx))"
    by blast
  have kb: "geLo (ctxLo C) key" "ltHi (ctxHi C) key"
    using route_bounds [OF ctx(3)] by auto
  have ord': "ordered (ctxLo C) (ctxHi C) (ALeaf a ks' vs' nx)"
    using leaf(1) s(1-3) kb by auto
  have pk: "\<And>v. (key, v) \<notin> set (preEntries C)" "\<And>v. (key, v) \<notin> set (postEntries C)"
    using path_keys [OF ctx(1,3)] by (force simp: image_iff)+
  have ent: "set (preEntries C) \<union> set (zip ks' vs') \<union> set (postEntries C)
               = {(k, v) \<in> set (entries (plug C (ALeaf a ks vs nx))). k \<noteq> key} \<union> {(key, val)}"
    unfolding s(6) entries_plug set_append entries_ALeaf using pk by blast
  have "distinct (addrs T') \<and> ordered None None T' \<and> small T' \<and> linked (leaves T') None
          \<and> set (entries T') = set (preEntries C) \<union> set (zip ks' vs') \<union> set (postEntries C)"
  proof (cases "kOrder \<le> length ks'")
    case False
    then have T: "T' = plug C (ALeaf a ks' vs' nx)" unfolding T' s(7) by simp
    have "distinct (addrs T')" using dist(1) by (simp add: T distinct_plug)
    moreover have "ordered None None T'" using ord' ctx(1) by (simp add: T ordered_plug)
    moreover have "small T'" using False ctx(2) by (simp add: T small_plug)
    moreover have "linked (leaves T') None"
      using link by (simp add: T leaves_plug linked_replace1 [of _ a ks vs nx])
    moreover have "set (entries T') = set (preEntries C) \<union> set (zip ks' vs') \<union> set (postEntries C)"
      by (auto simp: T entries_plug)
    ultimately show ?thesis by blast
  next
    case True
    obtain l k r where h: "halves n (ALeaf a ks' vs' nx) = (l, k, r)"
      by (cases "halves n (ALeaf a ks' vs' nx)") auto
    have T: "T' = rebuild (Suc n) C (l, k, r)" unfolding T' s(7) h using True by simp
    have l: "l = ALeaf a (take (length ks' div 2) ks') (take (length ks' div 2) vs') (Some n)"
      and r: "r = ALeaf n (drop (length ks' div 2) ks') (drop (length ks' div 2) vs') nx"
      using h by auto
    have two: "2 \<le> length ks'" using True by (simp add: kOrder_def)
    have "distinct (addrs T')"
      unfolding T using dist by (intro distinct_rebuild) (auto simp: l r less_Suc_eq)
    moreover have "ordered None None T'"
      unfolding T using ordered_halves_leaf [OF ord' two h] ctx(1)
      by (intro ordered_rebuild) auto
    moreover have "small T'"
      unfolding T using small_halves_leaf [OF s(4,5) h] ctx(2)
      by (intro small_rebuild) auto
    moreover have "linked (leaves T') None"
      using link by (simp add: T leaves_rebuild leaves_plug l r linked_replace2 [of _ a ks vs nx])
    moreover have "set (entries T') = set (preEntries C) \<union> set (zip ks' vs') \<union> set (postEntries C)"
      unfolding T entries_rebuild set_append
      using entries_halves_leaf [OF h, symmetric] by (simp add: Un_assoc)
    ultimately show ?thesis by blast
  qed
  then show "distinct (addrs T')" and "ordered None None T'" and "small T'"
    and "linked (leaves T') None"
    and "set (entries T') =
           {(k, v) \<in> set (entries (plug C (ALeaf a ks vs nx))). k \<noteq> key} \<union> {(key, val)}"
    using ent by simp_all
qed

lemma treeInv_path:
  assumes "treeInv t T"
  shows "\<exists>C a ks vs nx. T = plug C (ALeaf a ks vs nx) \<and> list_all (onPath key) C
           \<and> orderedCtx C \<and> ordered (ctxLo C) (ctxHi C) (ALeaf a ks vs nx)
           \<and> list_all smallF C \<and> length ks < kOrder \<and> distinct (ctxAddrs C @ [a])"
proof -
  have ord: "ordered None None T" and sm: "small T" and d: "distinct (addrs T)"
    using assms by (auto simp: treeInv_def)
  from path_exists [OF ord, of key]
  obtain C a ks vs nx where T: "T = plug C (ALeaf a ks vs nx)" "list_all (onPath key) C"
    by blast
  have "orderedCtx C \<and> ordered (ctxLo C) (ctxHi C) (ALeaf a ks vs nx)"
    using ord unfolding T(1) ordered_plug .
  moreover have "list_all smallF C \<and> length ks < kOrder"
    using sm unfolding T(1) small_plug by simp
  moreover have "distinct (ctxAddrs C @ [a])"
    using d unfolding T(1) distinct_plug by simp
  ultimately show ?thesis using T by blast
qed

lemma insert_inv:
  assumes "treeInv t T"
  shows "\<exists>t' T'. insert_tree t key val = Some (Completed t') \<and> treeInv t' T'
           \<and> set (entries T') = {(k, v) \<in> set (entries T). k \<noteq> key} \<union> {(key, val)}"
proof -
  from treeInv_path [OF assms, of key]
  obtain C a ks vs nx where T: "T = plug C (ALeaf a ks vs nx)"
    and path: "list_all (onPath key) C"
    and oc: "orderedCtx C" and ol: "ordered (ctxLo C) (ctxHi C) (ALeaf a ks vs nx)"
    and sc: "list_all smallF C" and sl: "length ks < kOrder"
    and dc: "distinct (ctxAddrs C @ [a])"
    by blast
  have root: "root t = Some (addrOf (plug C (ALeaf a ks vs nx)))"
    and rep: "repr (heap t) (plug C (ALeaf a ks vs nx))"
    and dist: "distinct (addrs (plug C (ALeaf a ks vs nx)))"
    and link: "linked (leaves (plug C (ALeaf a ks vs nx))) None"
    using assms by (auto simp: treeInv_def T)
  have lv: "length vs = length ks" "sorted_wrt (<) ks" using ol by auto
  define T' where "T' = insLeaf (length (heap t)) C (ALeaf a ks vs nx) key val"
  from insert_step [OF root rep dist path orderedCtx_shape [OF oc] lv, of val]
  obtain t' where t': "insert_tree t key val = Some (Completed t')"
    "root t' = Some (addrOf T')" "repr (heap t') T'"
    unfolding T'_def by blast
  have less: "\<And>b. b \<in> set (ctxAddrs C @ [a]) \<Longrightarrow> b < length (heap t)"
    using rep reprCtx_less [of "heap t" C a] by (auto simp: repr_plug)
  note iv = insLeaf_inv [OF oc sc path ol sl dc less link T'_def]
  have "treeInv t' T'"
    unfolding treeInv_def using t'(2,3) iv(1-4) by simp
  then show ?thesis using t'(1) iv(5) T by blast
qed

lemma insert_empty:
  assumes "root t = None"
  shows "\<exists>t' T'. insert_tree t key val = Some (Completed t') \<and> treeInv t' T'
           \<and> set (entries T') = {(key, val)}"
proof -
  define t' where "t' = t\<lparr>heap := heap t @ [BPlusLeafNode [key] [val] None],
                          root := Some (length (heap t))\<rparr>"
  have "insert_tree t key val = Some (Completed t')"
    using assms by (simp add: insert_tree_def t'_def)
  moreover have "treeInv t' (ALeaf (length (heap t)) [key] [val] None)"
    by (simp add: treeInv_def t'_def kOrder_def)
  ultimately show ?thesis by force
qed

lemma describes_empty: "describes emptyTree Map.empty"
  by (simp add: describes_def emptyTree_def)

lemma insert_describes:
  assumes "describes t m"
  shows "\<exists>t'. insert_tree t key val = Some (Completed t') \<and> describes t' (m(key \<mapsto> val))"
proof (cases "root t")
  case None
  then have m: "m = Map.empty"
    using assms by (auto simp: describes_def treeInv_def)
  from insert_empty [OF None, of key val]
  obtain t' T' where "insert_tree t key val = Some (Completed t')" "treeInv t' T'"
    "set (entries T') = {(key, val)}"
    by blast
  then show ?thesis unfolding describes_def m by fastforce
next
  case (Some r)
  then obtain T where T: "treeInv t T" "\<And>k v. (k, v) \<in> set (entries T) \<longleftrightarrow> m k = Some v"
    using assms by (auto simp: describes_def)
  from insert_inv [OF T(1), of key val]
  obtain t' T' where t': "insert_tree t key val = Some (Completed t')" "treeInv t' T'"
    "set (entries T') = {(k, v) \<in> set (entries T). k \<noteq> key} \<union> {(key, val)}"
    by blast
  have "\<forall>k v. (k, v) \<in> set (entries T') \<longleftrightarrow> (m(key \<mapsto> val)) k = Some v"
    unfolding t'(3) using T(2) by auto
  then show ?thesis using t'(1,2) unfolding describes_def by blast
qed

lemma inserts_describes:
  "describes t m \<Longrightarrow> \<exists>t'. inserts t kvs = Some t' \<and> describes t' (m ++ map_of (rev kvs))"
proof (induction kvs arbitrary: t m)
  case Nil
  then show ?case by simp
next
  case (Cons kv kvs)
  obtain key val where kv: "kv = (key, val)" by (cases kv)
  from insert_describes [OF Cons.prems, of key val]
  obtain t1 where t1: "insert_tree t key val = Some (Completed t1)" "describes t1 (m(key \<mapsto> val))"
    by blast
  from Cons.IH [OF t1(2)]
  obtain t' where t': "inserts t1 kvs = Some t'"
    "describes t' (m(key \<mapsto> val) ++ map_of (rev kvs))"
    by blast
  have "m(key \<mapsto> val) ++ map_of (rev kvs) = m ++ map_of (rev (kv # kvs))"
    by (auto simp: kv fun_eq_iff map_add_def split: option.splits)
  then show ?case using t1(1) t' by (simp add: kv)
qed

lemma search_describes:
  assumes "describes t m"
  shows "search t key = Some (m key)"
proof (cases "root t")
  case None
  then show ?thesis using assms by (auto simp: describes_def treeInv_def search_def)
next
  case (Some r)
  then obtain T where T: "treeInv t T" "\<And>k v. (k, v) \<in> set (entries T) \<longleftrightarrow> m k = Some v"
    using assms by (auto simp: describes_def)
  from treeInv_path [OF T(1), of key]
  obtain C a ks vs nx where P: "T = plug C (ALeaf a ks vs nx)"
    and path: "list_all (onPath key) C"
    and oc: "orderedCtx C" and ol: "ordered (ctxLo C) (ctxHi C) (ALeaf a ks vs nx)"
    by blast
  have root: "root t = Some (addrOf (plug C (ALeaf a ks vs nx)))"
    and rep: "repr (heap t) (plug C (ALeaf a ks vs nx))"
    using T(1) by (auto simp: treeInv_def P)
  have cell: "a < length (heap t)" "heap t ! a = BPlusLeafNode ks vs nx"
    using rep by (auto simp: repr_plug)
  have fl: "findLeaf t key = Some (Some a)"
    using root rep path by (rule findLeaf_plug)
  have lv: "length vs = length ks" "sorted_wrt (<) ks" using ol by auto
  have s: "search t key = (case keyIndex ks key of None \<Rightarrow> Some None
                            | Some i \<Rightarrow> if i < length vs then Some (Some (vs ! i)) else None)"
    using Some fl cell by (simp add: search_def)
  have pk: "\<And>v. (key, v) \<notin> set (preEntries C)" "\<And>v. (key, v) \<notin> set (postEntries C)"
    using path_keys [OF oc path] by (force simp: image_iff)+
  have m: "\<And>v. m key = Some v \<longleftrightarrow> (key, v) \<in> set (zip ks vs)"
    using T(2) [of key] pk unfolding P entries_plug by simp
  show ?thesis
  proof (cases "keyIndex ks key")
    case None
    then have "key \<notin> set ks" by (simp add: keyIndex_None)
    then have "\<And>v. (key, v) \<notin> set (zip ks vs)" by (auto dest: set_zip_leftD)
    then have "m key = None" using m by (cases "m key") auto
    then show ?thesis using s None by simp
  next
    case (Some i)
    then have i: "i < length ks" "ks ! i = key" using keyIndex_Some by auto
    then have "(key, vs ! i) \<in> set (zip ks vs)"
      using lv(1) by (auto simp: in_set_zip intro!: exI [of _ i])
    then have "m key = Some (vs ! i)" using m by simp
    then show ?thesis using s Some i lv(1) by simp
  qed
qed

lemma self_subtree: "t \<in> set (subtrees t)"
  by (cases t) auto

lemma addrs_subtrees: "addrs t = map addrOf (subtrees t)"
  by (induction t) (auto simp: map_concat intro: arg_cong [where f = concat])

lemma repr_subtree: "repr h t \<Longrightarrow> s \<in> set (subtrees t) \<Longrightarrow> repr h s"
  by (induction t) auto

lemma small_subtree: "small t \<Longrightarrow> s \<in> set (subtrees t) \<Longrightarrow> small s"
  by (induction t) auto

lemma subtrees_trans: "s \<in> set (subtrees t) \<Longrightarrow> u \<in> set (subtrees s) \<Longrightarrow> u \<in> set (subtrees t)"
  by (induction t) auto

lemma child_subtree: "t \<in> set ts \<Longrightarrow> s \<in> set (subtrees t) \<Longrightarrow> s \<in> set (subtrees (ANode a ks ts))"
  by auto

lemma orderedList_child:
  "orderedList lo ks hi ts \<Longrightarrow> t \<in> set ts \<Longrightarrow> \<exists>lo' hi'. ordered lo' hi' t"
proof (induction ts arbitrary: lo ks)
  case Nil
  then show ?case by simp
next
  case (Cons x ts)
  show ?case
  proof (cases ks)
    case Nil
    then show ?thesis using Cons.prems by (cases ts) auto
  next
    case (Cons k ks')
    then show ?thesis using Cons.prems Cons.IH [of "Some k" ks'] by auto
  qed
qed

lemma ordered_subtree:
  "ordered lo hi t \<Longrightarrow> s \<in> set (subtrees t) \<Longrightarrow> \<exists>lo' hi'. ordered lo' hi' s"
proof (induction t arbitrary: lo hi)
  case (ALeaf a ks vs nx)
  then show ?case by auto
next
  case (ANode a ks ts)
  show ?case
  proof (cases "s = ANode a ks ts")
    case True
    then show ?thesis using ANode.prems(1) by blast
  next
    case False
    then obtain t where t: "t \<in> set ts" "s \<in> set (subtrees t)"
      using ANode.prems(2) by auto
    then obtain lo' hi' where "ordered lo' hi' t"
      using orderedList_child ANode.prems(1) by fastforce
    then show ?thesis using ANode.IH t by blast
  qed
qed

lemma reaches_trans: "reaches h b c \<Longrightarrow> reaches h a b \<Longrightarrow> reaches h a c"
  by (induction rule: reaches.induct) (auto intro: reaches.intros)

lemma reaches_subtree:
  assumes "repr h T" and "reaches h (addrOf T) b"
  shows "\<exists>s \<in> set (subtrees T). addrOf s = b"
  using assms(2)
proof (induction rule: reaches.induct)
  case here
  then show ?case using self_subtree by blast
next
  case (child p ks cs c)
  then obtain s where s: "s \<in> set (subtrees T)" "addrOf s = p" by blast
  have "repr h s" using assms(1) s(1) by (rule repr_subtree)
  then obtain ts where "s = ANode p ks ts" "cs = map addrOf ts"
    using child.hyps(3) s(2) by (cases s) auto
  then obtain t where "t \<in> set ts" "addrOf t = c" using child.hyps(4) by auto
  then have "t \<in> set (subtrees T)"
    using s(1) \<open>s = ANode p ks ts\<close> self_subtree [of t]
    by (meson child_subtree subtrees_trans)
  then show ?case using \<open>addrOf t = c\<close> by blast
qed

lemma subtree_reaches:
  "repr h T \<Longrightarrow> s \<in> set (subtrees T) \<Longrightarrow> reaches h (addrOf T) (addrOf s)"
proof (induction T)
  case (ALeaf a ks vs nx)
  then show ?case by (auto intro: reaches.here)
next
  case (ANode a ks ts)
  show ?case
  proof (cases "s = ANode a ks ts")
    case True
    then show ?thesis by (auto intro: reaches.here)
  next
    case False
    then obtain t where t: "t \<in> set ts" "s \<in> set (subtrees t)"
      using ANode.prems(2) by auto
    have "reaches h (addrOf t) (addrOf s)"
      using ANode.IH [OF t(1) _ t(2)] ANode.prems(1) t(1) by simp
    moreover have "reaches h a (addrOf t)"
      using ANode.prems(1) t(1)
      by (intro reaches.child [OF reaches.here, of a h ks "map addrOf ts"]) auto
    ultimately show ?thesis by (simp add: reaches_trans)
  qed
qed

lemma subtree_unique:
  "distinct (addrs T) \<Longrightarrow> s \<in> set (subtrees T) \<Longrightarrow> s' \<in> set (subtrees T) \<Longrightarrow>
   addrOf s = addrOf s' \<Longrightarrow> s = s'"
  by (simp add: addrs_subtrees distinct_map inj_on_def)

lemma leaves_subtrees:
  "(a, ks, vs, nx) \<in> set (leaves t) \<longleftrightarrow> ALeaf a ks vs nx \<in> set (subtrees t)"
  by (induction t) auto

lemma entries_leaves:
  "(k, v) \<in> set (entries t) \<longleftrightarrow> (\<exists>a ks vs nx. (a, ks, vs, nx) \<in> set (leaves t) \<and> (k, v) \<in> set (zip ks vs))"
proof
  assume "(k, v) \<in> set (entries t)"
  then obtain x where x: "x \<in> set (leaves t)" "(k, v) \<in> set (leafEntries x)"
    by (auto simp: entries_def)
  obtain a ks vs nx where "x = (a, ks, vs, nx)" by (cases x)
  then show "\<exists>a ks vs nx. (a, ks, vs, nx) \<in> set (leaves t) \<and> (k, v) \<in> set (zip ks vs)"
    using x by auto
next
  assume "\<exists>a ks vs nx. (a, ks, vs, nx) \<in> set (leaves t) \<and> (k, v) \<in> set (zip ks vs)"
  then obtain a ks vs nx where "(a, ks, vs, nx) \<in> set (leaves t)" "(k, v) \<in> set (leafEntries (a, ks, vs, nx))"
    by auto
  then show "(k, v) \<in> set (entries t)"
    unfolding entries_def set_concat by (metis UN_I image_eqI list.set_map)
qed

text \<open>What is stored in the reachable leaves is what the abstract tree lists.\<close>

lemma leafHolds_entries:
  assumes "treeInv t T"
  shows "(\<exists>leaf i. leafHolds t leaf i key val) \<longleftrightarrow> (key, val) \<in> set (entries T)"
proof
  assume "\<exists>leaf i. leafHolds t leaf i key val"
  then obtain leaf i ks vs nx where h: "reaches (heap t) (addrOf T) leaf"
    "heap t ! leaf = BPlusLeafNode ks vs nx" "i < length ks" "i < length vs"
    "ks ! i = key" "vs ! i = val"
    using assms by (auto simp: leafHolds_def treeInv_def)
  have rep: "repr (heap t) T" using assms by (simp add: treeInv_def)
  from reaches_subtree [OF rep h(1)]
  obtain s where s: "s \<in> set (subtrees T)" "addrOf s = leaf" by blast
  have "repr (heap t) s" using rep s(1) by (rule repr_subtree)
  then have "s = ALeaf leaf ks vs nx" using h(2) s(2) by (cases s) auto
  then have "(leaf, ks, vs, nx) \<in> set (leaves T)" using s(1) by (simp add: leaves_subtrees)
  moreover have "(key, val) \<in> set (zip ks vs)"
    using h(3-6) by (auto simp: in_set_zip intro!: exI [of _ i])
  ultimately show "(key, val) \<in> set (entries T)" unfolding entries_leaves by blast
next
  assume "(key, val) \<in> set (entries T)"
  then obtain a ks vs nx where l: "(a, ks, vs, nx) \<in> set (leaves T)" "(key, val) \<in> set (zip ks vs)"
    unfolding entries_leaves by blast
  then obtain i where i: "i < length ks" "i < length vs" "ks ! i = key" "vs ! i = val"
    by (auto simp: in_set_zip)
  have rep: "repr (heap t) T" and root: "root t = Some (addrOf T)"
    using assms by (simp_all add: treeInv_def)
  have s: "ALeaf a ks vs nx \<in> set (subtrees T)" using l(1) by (simp add: leaves_subtrees)
  have "reaches (heap t) (addrOf T) a" using subtree_reaches [OF rep s] by simp
  moreover have "a < length (heap t) \<and> heap t ! a = BPlusLeafNode ks vs nx"
    using repr_subtree [OF rep s] by simp
  ultimately have "leafHolds t a i key val"
    using root i by (auto simp: leafHolds_def)
  then show "\<exists>leaf i. leafHolds t leaf i key val" by blast
qed

lemma leaf_ordered:
  "ordered lo hi t \<Longrightarrow> (a, ks, vs, nx) \<in> set (leaves t) \<Longrightarrow> length vs = length ks \<and> sorted_wrt (<) ks"
proof -
  assume "ordered lo hi t" "(a, ks, vs, nx) \<in> set (leaves t)"
  then obtain lo' hi' where "ordered lo' hi' (ALeaf a ks vs nx)"
    using ordered_subtree leaves_subtrees by blast
  then show ?thesis by simp
qed

lemma leafHolds_unique:
  assumes "treeInv t T" "leafHolds t leaf i key val" "leafHolds t leaf' i' key val'"
  shows "leaf = leaf' \<and> i = i'"
proof -
  from treeInv_path [OF assms(1), of key]
  obtain C a ks vs nx where P: "T = plug C (ALeaf a ks vs nx)"
    and path: "list_all (onPath key) C"
    and oc: "orderedCtx C" and ol: "ordered (ctxLo C) (ctxHi C) (ALeaf a ks vs nx)"
    by blast
  have rep: "repr (heap t) T" and ord: "ordered None None T"
    using assms(1) by (simp_all add: treeInv_def)
  have pk: "key \<notin> fst ` set (preEntries C)" "key \<notin> fst ` set (postEntries C)"
    using path_keys [OF oc path] by auto
  have d: "distinct ks" using ol by (simp add: strict_sorted_iff)
  have one: "l = a \<and> ks ! j = key \<and> j < length ks"
    if "leafHolds t l j key v" for l j v
  proof -
    from that obtain ks' vs' nx' where h: "reaches (heap t) (addrOf T) l"
      "heap t ! l = BPlusLeafNode ks' vs' nx'" "j < length ks'" "j < length vs'"
      "ks' ! j = key" "vs' ! j = v"
      using assms(1) by (auto simp: leafHolds_def treeInv_def)
    from reaches_subtree [OF rep h(1)]
    obtain s where s: "s \<in> set (subtrees T)" "addrOf s = l" by blast
    have "repr (heap t) s" using rep s(1) by (rule repr_subtree)
    then have "s = ALeaf l ks' vs' nx'" using h(2) s(2) by (cases s) auto
    then have mem: "(l, ks', vs', nx') \<in> set (leaves T)" using s(1) by (simp add: leaves_subtrees)
    have kv: "(key, v) \<in> set (leafEntries (l, ks', vs', nx'))"
      using h(3-6) by (auto simp: in_set_zip intro!: exI [of _ j])
    have "(l, ks', vs', nx') \<notin> set (preLeaves C)" "(l, ks', vs', nx') \<notin> set (postLeaves C)"
      using pk kv by (force simp: image_iff)+
    then have "(l, ks', vs', nx') = (a, ks, vs, nx)"
      using mem unfolding P leaves_plug by auto
    then show ?thesis using h by simp
  qed
  from one [OF assms(2)] one [OF assms(3)]
  have "leaf = a" "leaf' = a" "ks ! i = ks ! i'" "i < length ks" "i' < length ks" by simp_all
  then show ?thesis using d by (simp add: nth_eq_iff_index_eq)
qed

lemma latest_map_of: "latest kvs key = map_of (rev kvs) key"
  by (induction kvs) (auto simp: map_add_def split: option.splits)

lemma latest_Some: "key \<in> fst ` set kvs \<Longrightarrow> \<exists>v. latest kvs key = Some v"
proof -
  assume "key \<in> fst ` set kvs"
  then have "map_of (rev kvs) key \<noteq> None" by (simp add: map_of_eq_None_iff)
  then show ?thesis by (auto simp: latest_map_of)
qed

lemma reachable_describes:
  "\<exists>t. inserts emptyTree kvs = Some t \<and> describes t (latest kvs)"
proof -
  have "latest kvs = Map.empty ++ map_of (rev kvs)"
    by (simp add: fun_eq_iff latest_map_of)
  then show ?thesis
    using inserts_describes [OF describes_empty, of kvs] by simp
qed

lemma overwrite_in_place:
  assumes "describes t m" and "search t key = Some (Some old)"
  shows "\<exists>leaf ks vs nx i. leaf < length (heap t) \<and> heap t ! leaf = BPlusLeafNode ks vs nx
           \<and> i < length ks \<and> i < length vs \<and> ks ! i = key \<and> vs ! i = old
           \<and> insert_tree t key val =
               Some (Completed (t\<lparr>heap := (heap t)[leaf := BPlusLeafNode ks (vs[i := val]) nx]\<rparr>))"
proof -
  have "root t \<noteq> None" using assms(2) by (cases "root t") (auto simp: search_def)
  then obtain T where T: "treeInv t T" using assms(1) by (auto simp: describes_def)
  from treeInv_path [OF T, of key]
  obtain C a ks vs nx where P: "T = plug C (ALeaf a ks vs nx)"
    and path: "list_all (onPath key) C"
    and ol: "ordered (ctxLo C) (ctxHi C) (ALeaf a ks vs nx)"
    by blast
  have root: "root t = Some (addrOf (plug C (ALeaf a ks vs nx)))"
    and rep: "repr (heap t) (plug C (ALeaf a ks vs nx))"
    using T by (auto simp: treeInv_def P)
  have cell: "a < length (heap t)" "heap t ! a = BPlusLeafNode ks vs nx"
    using rep by (auto simp: repr_plug)
  have fl: "findLeaf t key = Some (Some a)"
    using root rep path by (rule findLeaf_plug)
  have lv: "length vs = length ks" using ol by auto
  have s: "search t key = (case keyIndex ks key of None \<Rightarrow> Some None
                            | Some i \<Rightarrow> if i < length vs then Some (Some (vs ! i)) else None)"
    using root fl cell by (simp add: search_def)
  then obtain i where i: "keyIndex ks key = Some i"
    using assms(2) by (cases "keyIndex ks key") auto
  then have i': "i < length ks" "ks ! i = key" using keyIndex_Some by auto
  then have old: "vs ! i = old" using s i assms(2) lv by simp
  have ins: "insert_tree t key val =
     Some (Completed (t\<lparr>heap := (heap t)[a := BPlusLeafNode ks (vs[i := val]) nx]\<rparr>))"
    using insert_tree_found [OF root fl cell, of val] i i' lv by simp
  show ?thesis
    using cell i' lv old ins
    by (intro exI [of _ a] exI [of _ ks] exI [of _ vs] exI [of _ nx] exI [of _ i]) simp
qed

text \<open>
  Claim C1. Every finite sequence of insertions into the empty tree runs to the end, and
  afterwards a search for any key that was inserted returns the value of the most recent
  insertion with that key. Inserting a key that the tree holds (a search finds it)
  overwrites its value in place: the result is the same store with the one value replaced
  at the position of the key in its leaf, so no entry is added, no node is allocated and
  no key, child pointer, link or the root changes.
\<close>

theorem insert_search_roundtrip:
  "\<exists>t. inserts emptyTree kvs = Some t
     \<and> (\<forall>key. key \<in> fst ` set kvs \<longrightarrow>
           (\<exists>v. latest kvs key = Some v \<and> search t key = Some (Some v)))
     \<and> (\<forall>key old val. search t key = Some (Some old) \<longrightarrow>
           (\<exists>leaf ks vs nx i. leaf < length (heap t) \<and> heap t ! leaf = BPlusLeafNode ks vs nx
              \<and> i < length ks \<and> i < length vs \<and> ks ! i = key \<and> vs ! i = old
              \<and> insert_tree t key val =
                  Some (Completed
                    (t\<lparr>heap := (heap t)[leaf := BPlusLeafNode ks (vs[i := val]) nx]\<rparr>))))"
proof -
  obtain t where t: "inserts emptyTree kvs = Some t" "describes t (latest kvs)"
    using reachable_describes by blast
  have "\<exists>v. latest kvs key = Some v \<and> search t key = Some (Some v)" if "key \<in> fst ` set kvs" for key
    using latest_Some [OF that] search_describes [OF t(2), of key] by auto
  then show ?thesis
    using t(1) overwrite_in_place [OF t(2)] by blast
qed

theorem insert_search_roundtrip_witness:
  "\<exists>t. inserts emptyTree [(10, 100), (20, 200), (10, 999)] = Some t
      \<and> search t 10 = Some (Some 999) \<and> search t 20 = Some (Some 200)
      \<and> (\<exists>t'. insert_tree t 20 7 = Some (Completed t') \<and> root t' = root t
              \<and> length (heap t') = length (heap t))"
  using insert_search_roundtrip [of "[(10, 100), (20, 200), (10, 999)]"]
proof (elim exE conjE)
  fix t
  assume t: "inserts emptyTree [(10, 100), (20, 200), (10, 999)] = Some t"
    and s: "\<forall>key. key \<in> fst ` set [(10, 100), (20, 200), (10, 999)] \<longrightarrow>
             (\<exists>v. latest [(10, 100), (20, 200), (10, 999)] key = Some v
                 \<and> search t key = Some (Some v))"
    and w: "\<forall>key old val. search t key = Some (Some old) \<longrightarrow>
           (\<exists>leaf ks vs nx i. leaf < length (heap t) \<and> heap t ! leaf = BPlusLeafNode ks vs nx
              \<and> i < length ks \<and> i < length vs \<and> ks ! i = key \<and> vs ! i = old
              \<and> insert_tree t key val =
                  Some (Completed
                    (t\<lparr>heap := (heap t)[leaf := BPlusLeafNode ks (vs[i := val]) nx]\<rparr>)))"
  have a: "search t 10 = Some (Some 999)" using s [rule_format, of 10] by simp
  have b: "search t 20 = Some (Some 200)" using s [rule_format, of 20] by simp
  from w [rule_format, OF b, of 7]
  obtain leaf ks vs nx i where
    "insert_tree t 20 7 =
       Some (Completed (t\<lparr>heap := (heap t)[leaf := BPlusLeafNode ks (vs[i := 7]) nx]\<rparr>))"
    by blast
  then have "\<exists>t'. insert_tree t 20 7 = Some (Completed t') \<and> root t' = root t
              \<and> length (heap t') = length (heap t)"
    by simp
  then show ?thesis using t a b by blast
qed

text \<open>
  Claim C10. In every state reached by insertions from the empty tree, an insertion of
  \<open>key\<close> completes and leaves the result of a search for any other key as it was, also
  when it splits nodes and replaces the root.
\<close>

theorem insert_frame:
  assumes "inserts emptyTree kvs = Some t"
  shows "\<exists>t'. insert_tree t key val = Some (Completed t')
           \<and> (\<forall>k. k \<noteq> key \<longrightarrow> search t' k = search t k)"
proof -
  have d: "describes t (latest kvs)" using reachable_describes [of kvs] assms by auto
  from insert_describes [OF d, of key val]
  obtain t' where t': "insert_tree t key val = Some (Completed t')"
    "describes t' ((latest kvs)(key \<mapsto> val))"
    by blast
  have "search t' k = search t k" if "k \<noteq> key" for k
    using search_describes [OF d, of k] search_describes [OF t'(2), of k] that by simp
  then show ?thesis using t'(1) by blast
qed

theorem insert_frame_witness:
  "\<exists>t t'. inserts emptyTree [(10, 100), (20, 200), (5, 50), (6, 60)] = Some t
     \<and> insert_tree t 15 150 = Some (Completed t')
     \<and> search t' 6 = search t 6 \<and> search t' 20 = search t 20"
proof -
  obtain t where t: "inserts emptyTree [(10, 100), (20, 200), (5, 50), (6, 60)] = Some t"
    using reachable_describes by blast
  from insert_frame [OF t, of 15 150] show ?thesis using t by auto
qed

text \<open>
  Claim C2. In every state reached by insertions from the empty tree, a search returns
  normally (no undefined behaviour, no endless loop); it returns nothing exactly when the
  tree is empty or no reachable leaf holds the key, and otherwise the value stored with
  the key, which is held at exactly one position of exactly one reachable leaf. A search
  has no effect on the state: \<open>search\<close> reads the tree and returns a value only.
\<close>

theorem search_result:
  assumes "inserts emptyTree kvs = Some t"
  shows "\<exists>r. search t key = Some r
           \<and> (r = None \<longleftrightarrow> root t = None \<or> \<not> (\<exists>leaf i v. leafHolds t leaf i key v))
           \<and> (\<forall>v. r = Some v \<longleftrightarrow> (\<exists>leaf i. leafHolds t leaf i key v))
           \<and> (\<forall>leaf i v leaf' i' v'. leafHolds t leaf i key v \<longrightarrow> leafHolds t leaf' i' key v'
                 \<longrightarrow> leaf = leaf' \<and> i = i')"
proof -
  have d: "describes t (latest kvs)" using reachable_describes [of kvs] assms by auto
  have s: "search t key = Some (latest kvs key)" using search_describes [OF d] .
  show ?thesis
  proof (cases "root t")
    case None
    then have "latest kvs key = None" "\<And>leaf i v. \<not> leafHolds t leaf i key v"
      using d by (auto simp: describes_def treeInv_def leafHolds_def)
    then show ?thesis using s None by auto
  next
    case (Some r)
    then obtain T where T: "treeInv t T"
      "\<And>k v. (k, v) \<in> set (entries T) \<longleftrightarrow> latest kvs k = Some v"
      using d by (auto simp: describes_def)
    have h: "\<And>v. (\<exists>leaf i. leafHolds t leaf i key v) \<longleftrightarrow> latest kvs key = Some v"
      using leafHolds_entries [OF T(1)] T(2) by simp
    have u: "\<forall>leaf i v leaf' i' v'. leafHolds t leaf i key v \<longrightarrow> leafHolds t leaf' i' key v'
                 \<longrightarrow> leaf = leaf' \<and> i = i'"
      using leafHolds_unique [OF T(1)] by blast
    have "latest kvs key = None \<longleftrightarrow> \<not> (\<exists>leaf i v. leafHolds t leaf i key v)"
    proof (cases "latest kvs key")
      case None
      then show ?thesis using h by simp
    next
      case (Some a)
      then have "\<exists>leaf i. leafHolds t leaf i key a" using h by simp
      then show ?thesis using Some by auto
    qed
    then show ?thesis using s Some h u by auto
  qed
qed

text \<open>
  Claim C3. In every state reached by insertions from the empty tree, every node reachable
  from the root holds at most \<open>kOrder - 1 = 3\<close> keys: a leaf at most three entries (as many
  values as keys), an internal node at most three keys (and one child more than keys).
\<close>

theorem order_bound:
  assumes "inserts emptyTree kvs = Some t" and "root t = Some r" and "reaches (heap t) r a"
  shows "a < length (heap t)
       \<and> (case heap t ! a of
            BPlusLeafNode ks vs nx \<Rightarrow> length ks \<le> kOrder - 1 \<and> length vs = length ks
          | BPlusInternalNode ks cs \<Rightarrow> length ks \<le> kOrder - 1 \<and> length cs = length ks + 1)"
proof -
  have d: "describes t (latest kvs)" using reachable_describes [of kvs] assms(1) by auto
  then obtain T where T: "treeInv t T" using assms(2) by (auto simp: describes_def)
  then have rep: "repr (heap t) T" and root: "r = addrOf T" and sm: "small T"
    and ord: "ordered None None T"
    using assms(2) by (auto simp: treeInv_def)
  from reaches_subtree [OF rep assms(3) [unfolded root]]
  obtain s where s: "s \<in> set (subtrees T)" "addrOf s = a" by blast
  have rs: "repr (heap t) s" using rep s(1) by (rule repr_subtree)
  have ss: "small s" using sm s(1) by (rule small_subtree)
  obtain lo hi where os: "ordered lo hi s" using ordered_subtree [OF ord s(1)] by blast
  show ?thesis
  proof (cases s)
    case (ALeaf b ks vs nx)
    then show ?thesis using rs ss os s(2) by (auto simp: kOrder_def)
  next
    case (ANode b ks ts)
    then have "length ts = Suc (length ks)" using os orderedList_length by simp
    then show ?thesis using rs ss s(2) ANode by (auto simp: kOrder_def)
  qed
qed

lemma ordered_keys:
  "ordered lo hi t \<Longrightarrow>
     (\<forall>s \<in> set (subtrees t). \<forall>k \<in> set (keysOf s). geLo lo k \<and> ltHi hi k)"
  and orderedList_keys:
  "orderedList lo ks hi ts \<Longrightarrow>
     sorted_wrt (<) ks \<and> (\<forall>k \<in> set ks. gtLo lo k \<and> ltHi hi k)
     \<and> (\<forall>t \<in> set ts. \<forall>s \<in> set (subtrees t). \<forall>k \<in> set (keysOf s). geLo lo k \<and> ltHi hi k)"
proof (induction lo hi t and lo ks hi ts rule: ordered_orderedList.induct)
  case (1 lo hi a ks vs nx)
  then show ?case by auto
next
  case (2 lo hi a ks ts)
  then have q: "sorted_wrt (<) ks" "\<forall>k \<in> set ks. gtLo lo k \<and> ltHi hi k"
    "\<forall>t \<in> set ts. \<forall>s \<in> set (subtrees t). \<forall>k \<in> set (keysOf s). geLo lo k \<and> ltHi hi k"
    by auto
  have "\<forall>k \<in> set ks. geLo lo k" using q(2) by (cases lo) auto
  then show ?case using q by auto
next
  case (3 lo hi t)
  then show ?case by simp
next
  case (4 lo k ks hi t ts)
  then have t: "\<forall>s \<in> set (subtrees t). \<forall>x \<in> set (keysOf s). geLo lo x \<and> x < k"
    and r: "sorted_wrt (<) ks" "\<forall>x \<in> set ks. k < x \<and> ltHi hi x"
    "\<forall>u \<in> set ts. \<forall>s \<in> set (subtrees u). \<forall>x \<in> set (keysOf s). k \<le> x \<and> ltHi hi x"
    and k: "gtLo lo k" "ltHi hi k"
    by auto
  have a: "\<And>x. x < k \<Longrightarrow> ltHi hi x" using k(2) ltHi_trans by blast
  have b: "\<And>x. k \<le> x \<Longrightarrow> geLo lo x \<and> (k < x \<longrightarrow> gtLo lo x)" using k(1) by (cases lo) auto
  have "sorted_wrt (<) (k # ks)" using r by auto
  moreover have "\<forall>x \<in> set (k # ks). gtLo lo x \<and> ltHi hi x"
    using r(2) k b by auto
  moreover have "\<forall>u \<in> set (t # ts). \<forall>s \<in> set (subtrees u). \<forall>x \<in> set (keysOf s). geLo lo x \<and> ltHi hi x"
    using t r(3) a b by auto
  ultimately show ?case by blast
qed simp_all

lemma scanKeys_sorted:
  "sorted_wrt (<) ks \<Longrightarrow> i \<le> length ks \<Longrightarrow> (0 < i \<longrightarrow> ks ! (i - 1) \<le> key) \<Longrightarrow>
   (i < length ks \<longrightarrow> key < ks ! i) \<Longrightarrow> scanKeys key ks = i"
proof (induction ks arbitrary: i)
  case Nil
  then show ?case by simp
next
  case (Cons k ks)
  show ?case
  proof (cases i)
    case 0
    then show ?thesis using Cons.prems by simp
  next
    case (Suc j)
    have kk: "k \<le> key"
    proof (cases j)
      case 0
      then show ?thesis using Cons.prems Suc by simp
    next
      case (Suc j')
      then have "ks ! j' \<in> set ks" using Cons.prems(2) \<open>i = Suc j\<close> by simp
      then have "k < ks ! j'" using Cons.prems(1) by simp
      then show ?thesis using Cons.prems(3) \<open>i = Suc j\<close> Suc by simp
    qed
    have lo: "0 < j \<longrightarrow> ks ! (j - 1) \<le> key"
      using Cons.prems(3) Suc by (cases j) auto
    have "scanKeys key ks = j"
      using Cons.prems(1,2,4) Suc lo by (intro Cons.IH) auto
    then show ?thesis using kk Suc by simp
  qed
qed

lemma covers_plug:
  "reprCtx h C a \<Longrightarrow> list_all (onPath key) C \<Longrightarrow> addrOf x = a \<Longrightarrow>
   covers h key (addrOf (plug C x)) a"
proof (induction C arbitrary: a x)
  case Nil
  then show ?case by (auto intro: covers.start)
next
  case (Cons f C)
  obtain p ks ls rs where f: "f = Frame p ks ls rs" by (cases f)
  from Cons.prems have ctx: "reprCtx h C p"
    and cell: "p < length h" "h ! p = BPlusInternalNode ks (map addrOf ls @ a # map addrOf rs)"
    and i: "scanKeys key ks = length ls" and path: "list_all (onPath key) C"
    by (auto simp: f)
  have c: "covers h key (addrOf (plug C (plug1 f x))) p"
    using Cons.IH [OF ctx path, of "plug1 f x"] by (simp add: f)
  have lo: "0 < length ls \<longrightarrow> ks ! (length ls - 1) \<le> key"
    using scanKeys_le [of "length ls - 1" key ks] i by auto
  have hi: "length ls < length ks \<longrightarrow> key < ks ! length ls"
    using scanKeys_gt [of key ks] i by simp
  have "covers h key (addrOf (plug C (plug1 f x)))
          ((map addrOf ls @ a # map addrOf rs) ! length ls)"
    by (rule covers.down [OF c cell _ lo hi]) simp
  then show ?case by (simp add: nth_append)
qed

lemma covers_path:
  assumes "repr h T" "ordered None None T" "covers h key (addrOf T) b"
  shows "\<exists>C s. T = plug C s \<and> addrOf s = b \<and> list_all (onPath key) C"
  using assms(3)
proof (induction rule: covers.induct)
  case start
  show ?case by (intro exI [of _ "[]"] exI [of _ T]) simp
next
  case (down p ks cs i)
  then obtain C s where P: "T = plug C s" "addrOf s = p" "list_all (onPath key) C"
    by blast
  have rs: "repr h s" using assms(1) by (simp add: P(1) repr_plug)
  then obtain ts where s: "s = ANode p ks ts" "cs = map addrOf ts"
    using down.hyps(3) P(2) by (cases s) auto
  have "ordered (ctxLo C) (ctxHi C) s" using assms(2) by (simp add: P(1) ordered_plug)
  then have ol: "orderedList (ctxLo C) ks (ctxHi C) ts" by (simp add: s)
  have len: "length ts = Suc (length ks)" using ol by (rule orderedList_length)
  have srt: "sorted_wrt (<) ks" using orderedList_keys [OF ol] by simp
  have i: "i < length ts" using down.hyps(4) s(2) by simp
  have sc: "scanKeys key ks = i"
    using srt i len down.hyps(5,6) by (intro scanKeys_sorted) auto
  let ?f = "Frame p ks (take i ts) (drop (Suc i) ts)"
  have "s = plug1 ?f (ts ! i)" using id_take_nth_drop [OF i] by (simp add: s)
  then have "T = plug (?f # C) (ts ! i)" by (simp add: P(1))
  moreover have "addrOf (ts ! i) = cs ! i" using i s(2) by simp
  moreover have "list_all (onPath key) (?f # C)" using P(3) sc i by simp
  ultimately show ?case by blast
qed

lemma findLeaf_path:
  assumes "root t = Some (addrOf (plug C s))" "repr (heap t) (plug C s)" "list_all (onPath key) C"
  shows "findLeaf t key = findLeafLoop (heap t) (Some (addrOf s)) key"
  using assms findLeafLoop_plug [of "heap t" C s key]
  by (simp add: findLeaf_def repr_plug)

text \<open>
  Claim C4. In every state reached by insertions from the empty tree, for every reachable
  internal node and every child index \<open>i\<close>, every key stored in a node of the subtree of
  \<open>children[i]\<close> (separator keys included) is at least \<open>keys[i-1]\<close> when \<open>i > 0\<close> and below
  \<open>keys[i]\<close> when \<open>i < keys.length\<close>. Hence \<open>findLeaf\<close> returns a leaf, this leaf is reached
  through children whose ranges hold the key, and it is the only leaf reached so. A key
  equal to the separator \<open>keys[j]\<close> is routed to the child on its right, \<open>children[j+1]\<close>.
\<close>

theorem separator_routing:
  assumes "inserts emptyTree kvs = Some t" and "root t = Some r"
  shows "(\<forall>p ks cs i b k. reaches (heap t) r p \<and> heap t ! p = BPlusInternalNode ks cs
              \<and> i < length cs \<and> reaches (heap t) (cs ! i) b \<and> k \<in> set (nodeKeys (heap t ! b))
            \<longrightarrow> (0 < i \<longrightarrow> ks ! (i - 1) \<le> k) \<and> (i < length ks \<longrightarrow> k < ks ! i))
       \<and> (\<exists>leaf. findLeaf t key = Some (Some leaf) \<and> leaf < length (heap t)
              \<and> isLeaf (heap t ! leaf) \<and> covers (heap t) key r leaf
              \<and> (\<forall>b. covers (heap t) key r b \<and> b < length (heap t) \<and> isLeaf (heap t ! b)
                    \<longrightarrow> b = leaf))
       \<and> (\<forall>p ks cs j. reaches (heap t) r p \<and> heap t ! p = BPlusInternalNode ks cs
              \<and> j < length ks \<and> ks ! j = key
            \<longrightarrow> scanKeys key ks = Suc j \<and> Suc j < length cs)"
proof -
  have d: "describes t (latest kvs)" using reachable_describes [of kvs] assms(1) by auto
  then obtain T where T: "treeInv t T" using assms(2) by (auto simp: describes_def)
  then have rep: "repr (heap t) T" and root: "r = addrOf T" "root t = Some (addrOf T)"
    and ord: "ordered None None T"
    using assms(2) by (auto simp: treeInv_def)
  have node: "\<exists>ts lo hi. ANode p ks ts \<in> set (subtrees T) \<and> cs = map addrOf ts
                \<and> orderedList lo ks hi ts"
    if rp: "reaches (heap t) r p" and hp: "heap t ! p = BPlusInternalNode ks cs" for p ks cs
  proof -
    from reaches_subtree [OF rep rp [unfolded root(1)]]
    obtain s where s: "s \<in> set (subtrees T)" "addrOf s = p" by blast
    have "repr (heap t) s" using rep s(1) by (rule repr_subtree)
    then obtain ts where ts: "s = ANode p ks ts" "cs = map addrOf ts"
      using hp s(2) by (cases s) auto
    obtain lo hi where "ordered lo hi s" using ordered_subtree [OF ord s(1)] by blast
    then show ?thesis using s(1) ts by auto
  qed
  have A: "(0 < i \<longrightarrow> ks ! (i - 1) \<le> k) \<and> (i < length ks \<longrightarrow> k < ks ! i)"
    if rp: "reaches (heap t) r p" and hp: "heap t ! p = BPlusInternalNode ks cs"
      and il: "i < length cs" and rb: "reaches (heap t) (cs ! i) b"
      and kb: "k \<in> set (nodeKeys (heap t ! b))" for p ks cs i b k
  proof -
    from node [OF rp hp]
    obtain ts lo hi where n: "ANode p ks ts \<in> set (subtrees T)" "cs = map addrOf ts"
      "orderedList lo ks hi ts"
      by blast
    have i: "i < length ts" using il n(2) by simp
    have "orderedList lo ks hi (take i ts @ ts ! i # drop (Suc i) ts)"
      using n(3) id_take_nth_drop [OF i] by simp
    then have oc: "ordered (holeLo lo (Frame p ks (take i ts) (drop (Suc i) ts)))
                     (holeHi hi (Frame p ks (take i ts) (drop (Suc i) ts))) (ts ! i)"
      using orderedList_hole [of lo ks hi "take i ts" "ts ! i" "drop (Suc i) ts" p] by blast
    have sub: "ts ! i \<in> set (subtrees T)"
      using n(1) i self_subtree [of "ts ! i"]
      by (meson child_subtree nth_mem subtrees_trans)
    have rc: "repr (heap t) (ts ! i)" using rep sub by (rule repr_subtree)
    have "reaches (heap t) (addrOf (ts ! i)) b" using rb n(2) i by simp
    from reaches_subtree [OF rc this]
    obtain s where s: "s \<in> set (subtrees (ts ! i))" "addrOf s = b" by blast
    have "repr (heap t) s" using rc s(1) by (rule repr_subtree)
    then have "nodeKeys (heap t ! b) = keysOf s" using s(2) by (cases s) auto
    then have "k \<in> set (keysOf s)" using kb by simp
    then have "geLo (holeLo lo (Frame p ks (take i ts) (drop (Suc i) ts))) k"
      "ltHi (holeHi hi (Frame p ks (take i ts) (drop (Suc i) ts))) k"
      using ordered_keys [OF oc] s(1) by auto
    then show ?thesis using i by (auto split: if_splits)
  qed
  have B: "\<exists>leaf. findLeaf t key = Some (Some leaf) \<and> leaf < length (heap t)
              \<and> isLeaf (heap t ! leaf) \<and> covers (heap t) key r leaf
              \<and> (\<forall>b. covers (heap t) key r b \<and> b < length (heap t) \<and> isLeaf (heap t ! b)
                    \<longrightarrow> b = leaf)"
  proof -
    from treeInv_path [OF T, of key]
    obtain C a ks vs nx where P: "T = plug C (ALeaf a ks vs nx)"
      and path: "list_all (onPath key) C"
      by blast
    have rp: "repr (heap t) (plug C (ALeaf a ks vs nx))" using rep by (simp add: P)
    then have ctx: "reprCtx (heap t) C a" and cell: "a < length (heap t)"
      "heap t ! a = BPlusLeafNode ks vs nx"
      by (auto simp: repr_plug)
    have fl: "findLeaf t key = Some (Some a)"
      using root(2) rp path unfolding P by (rule findLeaf_plug)
    have cv: "covers (heap t) key r a"
      using covers_plug [OF ctx path, of "ALeaf a ks vs nx"] by (simp add: root(1) P)
    have "b = a" if cb: "covers (heap t) key r b" and bl: "b < length (heap t)"
      and lf: "isLeaf (heap t ! b)" for b
    proof -
      from covers_path [OF rep ord cb [unfolded root(1)]]
      obtain C' s where Q: "T = plug C' s" "addrOf s = b" "list_all (onPath key) C'"
        by blast
      have "findLeaf t key = findLeafLoop (heap t) (Some b) key"
        using findLeaf_path [of t C' s key] root(2) rep Q by simp
      also have "\<dots> = Some (Some b)"
        using bl lf by (cases "heap t ! b") (simp_all add: findLeafLoop_leaf)
      finally show ?thesis using fl by simp
    qed
    then have u: "\<forall>b. covers (heap t) key r b \<and> b < length (heap t) \<and> isLeaf (heap t ! b)
                    \<longrightarrow> b = a"
      by (intro allI impI, elim conjE)
    have "isLeaf (heap t ! a)" using cell by simp
    then show ?thesis using fl cell(1) cv u by (intro exI [of _ a] conjI)
  qed
  have C: "scanKeys key ks = Suc j \<and> Suc j < length cs"
    if rp: "reaches (heap t) r p" and hp: "heap t ! p = BPlusInternalNode ks cs"
      and jl: "j < length ks" and kj: "ks ! j = key"
    for p ks cs j
  proof -
    from node [OF rp hp]
    obtain ts lo hi where n: "cs = map addrOf ts" "orderedList lo ks hi ts"
      by blast
    have srt: "sorted_wrt (<) ks" using orderedList_keys [OF n(2)] by simp
    have "Suc j < length ks \<longrightarrow> key < ks ! Suc j"
      using srt jl kj sorted_wrt_nth_less [of "(<)" ks j "Suc j"] by auto
    then have "scanKeys key ks = Suc j"
      using srt jl kj by (intro scanKeys_sorted) auto
    moreover have "length ts = Suc (length ks)" using n(2) by (rule orderedList_length)
    ultimately show ?thesis using jl n(1) by simp
  qed
  have A': "\<forall>p ks cs i b k. reaches (heap t) r p \<and> heap t ! p = BPlusInternalNode ks cs
              \<and> i < length cs \<and> reaches (heap t) (cs ! i) b \<and> k \<in> set (nodeKeys (heap t ! b))
            \<longrightarrow> (0 < i \<longrightarrow> ks ! (i - 1) \<le> k) \<and> (i < length ks \<longrightarrow> k < ks ! i)"
    by (intro allI impI, elim conjE, rule A)
  have C': "\<forall>p ks cs j. reaches (heap t) r p \<and> heap t ! p = BPlusInternalNode ks cs
              \<and> j < length ks \<and> ks ! j = key
            \<longrightarrow> scanKeys key ks = Suc j \<and> Suc j < length cs"
    by (intro allI impI, elim conjE, rule C)
  show ?thesis by (intro conjI A' B C')
qed

lemma one_insert:
  "inserts emptyTree [(10, 100)] = Some \<lparr>heap = [BPlusLeafNode [10] [100] None], root = Some 0\<rparr>"
  by code_simp

lemma four_inserts:
  "inserts emptyTree [(10, 100), (20, 200), (5, 50), (6, 60)] =
     Some \<lparr>heap = [BPlusLeafNode [5, 6] [50, 60] (Some 1), BPlusLeafNode [10, 20] [100, 200] None,
                  BPlusInternalNode [10] [0, 1]],
           root = Some 2\<rparr>"
  by code_simp

theorem search_result_witness:
  "\<exists>t. inserts emptyTree [(10, 100)] = Some t \<and> leafHolds t 0 0 10 100
      \<and> search t 10 = Some (Some 100)"
proof -
  let ?t = "\<lparr>heap = [BPlusLeafNode [10] [100] None], root = Some 0\<rparr>"
  have h: "leafHolds ?t 0 0 10 100" by (simp add: leafHolds_def reaches.here)
  from search_result [OF one_insert, of 10]
  obtain r where r: "search ?t 10 = Some r"
    "\<forall>v. r = Some v \<longleftrightarrow> (\<exists>leaf i. leafHolds ?t leaf i 10 v)"
    by (elim exE conjE)
  have "r = Some 100" using r(2) h by blast
  then show ?thesis using one_insert h r(1) by blast
qed

theorem order_bound_witness:
  "\<exists>t. inserts emptyTree [(10, 100)] = Some t \<and> root t = Some 0 \<and> reaches (heap t) 0 0
      \<and> length (nodeKeys (heap t ! 0)) \<le> kOrder - 1"
proof -
  let ?t = "\<lparr>heap = [BPlusLeafNode [10] [100] None], root = Some 0\<rparr>"
  have r: "root ?t = Some 0" by simp
  have "reaches (heap ?t) 0 0" by (rule reaches.here)
  from order_bound [OF one_insert r this]
  have "length (nodeKeys (heap ?t ! 0)) \<le> kOrder - 1" by simp
  then show ?thesis using one_insert reaches.here [of "heap ?t" 0] by (intro exI [of _ ?t]) simp
qed

theorem separator_routing_witness:
  "\<exists>t. inserts emptyTree [(10, 100), (20, 200), (5, 50), (6, 60)] = Some t \<and> root t = Some 2
      \<and> reaches (heap t) 2 2 \<and> heap t ! 2 = BPlusInternalNode [10] [0, 1]
      \<and> reaches (heap t) 1 1 \<and> 20 \<in> set (nodeKeys (heap t ! 1)) \<and> [10] ! 0 \<le> (20 :: int)
      \<and> scanKeys 10 [10] = 1
      \<and> (\<exists>leaf. findLeaf t 10 = Some (Some leaf) \<and> covers (heap t) 10 2 leaf)"
proof -
  let ?t = "\<lparr>heap = [BPlusLeafNode [5, 6] [50, 60] (Some 1), BPlusLeafNode [10, 20] [100, 200] None,
                  BPlusInternalNode [10] [0, 1]],
           root = Some 2\<rparr>"
  have r: "root ?t = Some 2" by simp
  note th = separator_routing [OF four_inserts r, of 10]
  have a: "reaches (heap ?t) 2 2" "reaches (heap ?t) 1 1" by (rule reaches.here)+
  have c: "heap ?t ! 2 = BPlusInternalNode [10] [0, 1]" "20 \<in> set (nodeKeys (heap ?t ! 1))"
    by simp_all
  have "[10] ! 0 \<le> (20 :: int)"
    using th [THEN conjunct1, rule_format, of 2 "[10]" "[0, 1]" 1 1 20] a c by simp
  moreover have "\<exists>leaf. findLeaf ?t 10 = Some (Some leaf) \<and> covers (heap ?t) 10 2 leaf"
    using th [THEN conjunct2, THEN conjunct1] by blast
  moreover have "scanKeys 10 [10] = 1"
    using th [THEN conjunct2, THEN conjunct2, rule_format, of 2 "[10]" "[0, 1]" 0] a c by simp
  ultimately show ?thesis using four_inserts a c by (intro exI [of _ ?t]) simp
qed

lemma leaves_nonempty_leftmost:
  "ordered lo hi T \<Longrightarrow> repr h T \<Longrightarrow>
   leaves T \<noteq> [] \<and> leftmostLeaf h (addrOf T) = Some (fst (hd (leaves T)))"
proof (induction T arbitrary: lo hi)
  case (ALeaf a ks vs nx)
  then show ?case by (subst leftmostLeaf.simps) simp
next
  case (ANode a ks ts)
  have "length ts = Suc (length ks)" using ANode.prems(1) orderedList_length by simp
  then obtain t ts' where ts: "ts = t # ts'" by (cases ts) auto
  obtain lo' hi' where "ordered lo' hi' t"
    using orderedList_child [of lo ks hi ts t] ANode.prems(1) ts by auto
  then have t: "leaves t \<noteq> []" "leftmostLeaf h (addrOf t) = Some (fst (hd (leaves t)))"
    using ANode.IH [of t lo' hi'] ANode.prems(2) ts by auto
  have "leftmostLeaf h a = leftmostLeaf h (addrOf t)"
    using ANode.prems(2) ts by (subst leftmostLeaf.simps) simp
  then show ?case using t by (simp add: ts)
qed

lemma walkLeaves_None: "walkLeaves h None = Some []"
  by (subst walkLeaves.simps) simp

lemma walkLeaves_leaf:
  "a < length h \<Longrightarrow> h ! a = BPlusLeafNode ks vs nx \<Longrightarrow>
   walkLeaves h (Some a) = Option.bind (walkLeaves h nx) (\<lambda>rest. Some (a # rest))"
  by (subst walkLeaves.simps) simp

lemma walk_linked:
  "\<forall>x \<in> set ls. \<forall>a ks vs nx. x = (a, ks, vs, nx) \<longrightarrow> a < length h \<and> h ! a = BPlusLeafNode ks vs nx
   \<Longrightarrow> linked ls None \<Longrightarrow>
   walkLeaves h (case ls of [] \<Rightarrow> None | x # _ \<Rightarrow> Some (fst x)) = Some (map fst ls)"
proof (induction ls)
  case Nil
  then show ?case by (simp add: walkLeaves_None)
next
  case (Cons x ls)
  obtain a ks vs nx where x: "x = (a, ks, vs, nx)" by (cases x)
  have cell: "a < length h" "h ! a = BPlusLeafNode ks vs nx" using Cons.prems(1) x by auto
  have nx: "nx = (case ls of [] \<Rightarrow> None | y # _ \<Rightarrow> Some (fst y))" "linked ls None"
    using Cons.prems(2) by (simp_all add: x)
  have "walkLeaves h nx = Some (map fst ls)"
    unfolding nx(1) using Cons.IH Cons.prems(1) nx(2) by simp
  then show ?case using walkLeaves_leaf [OF cell] by (simp add: x)
qed

lemma leaves_filter: "leaves t = concat (map leaves (filter isALeaf (subtrees t)))"
proof (induction t)
  case (ALeaf a ks vs nx)
  then show ?case by simp
next
  case (ANode a ks ts)
  have "concat (map leaves ts) = concat (map (\<lambda>t. concat (map leaves (filter isALeaf (subtrees t)))) ts)"
    using ANode.IH by (intro arg_cong [where f = concat] map_cong) auto
  also have "\<dots> = concat (map leaves (filter isALeaf (concat (map subtrees ts))))"
    by (induction ts) auto
  finally show ?case by simp
qed

lemma leaf_addrs: "map fst (leaves t) = map addrOf (filter isALeaf (subtrees t))"
proof -
  have "map fst (concat (map leaves xs)) = map addrOf xs" if "\<forall>x \<in> set xs. isALeaf x" for xs
    using that
  proof (induction xs)
    case Nil
    then show ?case by simp
  next
    case (Cons x xs)
    then show ?case by (cases x) auto
  qed
  then show ?thesis by (subst leaves_filter) simp
qed

lemma distinct_leaf_addrs: "distinct (addrs t) \<Longrightarrow> distinct (map fst (leaves t))"
  unfolding leaf_addrs addrs_subtrees by (rule distinct_map_filter)

lemma leaf_keys_entries:
  assumes "ordered lo hi T" "repr h T"
  shows "concat (map (\<lambda>a. nodeKeys (h ! a)) (map fst (leaves T))) = map fst (entries T)"
proof -
  have "map ((\<lambda>a. nodeKeys (h ! a)) \<circ> fst) (leaves T) = map (map fst \<circ> leafEntries) (leaves T)"
  proof (rule map_cong [OF refl])
    fix x assume x: "x \<in> set (leaves T)"
    obtain a ks vs nx where xx: "x = (a, ks, vs, nx)" by (cases x)
    have "ALeaf a ks vs nx \<in> set (subtrees T)" using x xx by (simp add: leaves_subtrees)
    then have "repr h (ALeaf a ks vs nx)" using assms(2) repr_subtree by blast
    moreover have "length vs = length ks" using leaf_ordered [OF assms(1)] x xx by blast
    ultimately show "((\<lambda>a. nodeKeys (h ! a)) \<circ> fst) x = (map fst \<circ> leafEntries) x"
      by (simp add: xx)
  qed
  then have "concat (map ((\<lambda>a. nodeKeys (h ! a)) \<circ> fst) (leaves T))
               = concat (map (map fst \<circ> leafEntries) (leaves T))"
    by (rule arg_cong)
  then show ?thesis
    by (simp only: entries_def map_concat map_map)
qed

lemma leaf_addr_set:
  assumes "repr h T"
  shows "set (map fst (leaves T)) = {a. reaches h (addrOf T) a \<and> a < length h \<and> isLeaf (h ! a)}"
proof (intro set_eqI iffI)
  fix a assume "a \<in> set (map fst (leaves T))"
  then obtain ks vs nx where "(a, ks, vs, nx) \<in> set (leaves T)" by auto
  then have s: "ALeaf a ks vs nx \<in> set (subtrees T)" by (simp add: leaves_subtrees)
  have "reaches h (addrOf T) a" using subtree_reaches [OF assms s] by simp
  moreover have "a < length h \<and> h ! a = BPlusLeafNode ks vs nx"
    using repr_subtree [OF assms s] by simp
  ultimately show "a \<in> {a. reaches h (addrOf T) a \<and> a < length h \<and> isLeaf (h ! a)}" by simp
next
  fix a assume "a \<in> {a. reaches h (addrOf T) a \<and> a < length h \<and> isLeaf (h ! a)}"
  then have r: "reaches h (addrOf T) a" and l: "isLeaf (h ! a)" by auto
  from reaches_subtree [OF assms r]
  obtain s where s: "s \<in> set (subtrees T)" "addrOf s = a" by blast
  have "repr h s" using assms s(1) by (rule repr_subtree)
  then obtain ks vs nx where "s = ALeaf a ks vs nx" using l s(2) by (cases s) auto
  then have "(a, ks, vs, nx) \<in> set (leaves T)" using s(1) by (simp add: leaves_subtrees)
  then show "a \<in> set (map fst (leaves T))" by force
qed

text \<open>
  Claim C5. In every state reached by insertions from the empty tree with a root, the
  descent through first children ends in a leaf; following the \<^verbatim>\<open>next_\<close> links from it ends
  at the null link, visits every leaf reachable from the root and no other node, each
  once; and the keys of the visited leaves, read in this order, are strictly ascending:
  every leaf is strictly ascending and no key occurs twice in the tree. The keys visited
  are the keys the reachable leaves hold.
\<close>

theorem leaf_chain:
  assumes "inserts emptyTree kvs = Some t" and "root t = Some r"
  shows "\<exists>first ls. leftmostLeaf (heap t) r = Some first
           \<and> walkLeaves (heap t) (Some first) = Some ls
           \<and> distinct ls
           \<and> set ls = {a. reaches (heap t) r a \<and> a < length (heap t) \<and> isLeaf (heap t ! a)}
           \<and> sorted_wrt (<) (concat (map (\<lambda>a. nodeKeys (heap t ! a)) ls))
           \<and> set (concat (map (\<lambda>a. nodeKeys (heap t ! a)) ls))
                = {k. \<exists>leaf i v. leafHolds t leaf i k v}"
proof -
  have d: "describes t (latest kvs)" using reachable_describes [of kvs] assms(1) by auto
  then obtain T where T: "treeInv t T" using assms(2) by (auto simp: describes_def)
  then have rep: "repr (heap t) T" and root: "r = addrOf T"
    and ord: "ordered None None T" and dist: "distinct (addrs T)"
    and link: "linked (leaves T) None"
    using assms(2) by (auto simp: treeInv_def)
  define ls where "ls = map fst (leaves T)"
  from leaves_nonempty_leftmost [OF ord rep]
  have ne: "leaves T \<noteq> []" and lm: "leftmostLeaf (heap t) r = Some (fst (hd (leaves T)))"
    by (simp_all add: root)
  have cells: "\<forall>x \<in> set (leaves T). \<forall>a ks vs nx. x = (a, ks, vs, nx) \<longrightarrow>
                 a < length (heap t) \<and> heap t ! a = BPlusLeafNode ks vs nx"
  proof (intro ballI allI impI)
    fix x a ks vs nx assume "x \<in> set (leaves T)" "x = (a, ks, vs, nx)"
    then have "ALeaf a ks vs nx \<in> set (subtrees T)" by (simp add: leaves_subtrees)
    from repr_subtree [OF rep this]
    show "a < length (heap t) \<and> heap t ! a = BPlusLeafNode ks vs nx" by simp
  qed
  have "(case leaves T of [] \<Rightarrow> None | x # _ \<Rightarrow> Some (fst x)) = Some (fst (hd (leaves T)))"
    using ne by (cases "leaves T") auto
  then have wk: "walkLeaves (heap t) (Some (fst (hd (leaves T)))) = Some ls"
    using walk_linked [OF cells link] by (simp add: ls_def)
  have di: "distinct ls" unfolding ls_def using dist by (rule distinct_leaf_addrs)
  have st: "set ls = {a. reaches (heap t) r a \<and> a < length (heap t) \<and> isLeaf (heap t ! a)}"
    unfolding ls_def root by (rule leaf_addr_set [OF rep])
  have ke: "concat (map (\<lambda>a. nodeKeys (heap t ! a)) ls) = map fst (entries T)"
    unfolding ls_def by (rule leaf_keys_entries [OF ord rep])
  have so: "sorted_wrt (<) (concat (map (\<lambda>a. nodeKeys (heap t ! a)) ls))"
    unfolding ke using ordered_entries [OF ord] by simp
  have "set (map fst (entries T)) = {k. \<exists>leaf i v. leafHolds t leaf i k v}"
  proof (intro set_eqI iffI)
    fix k assume "k \<in> set (map fst (entries T))"
    then obtain v where "(k, v) \<in> set (entries T)" by auto
    then have "\<exists>leaf i. leafHolds t leaf i k v" using leafHolds_entries [OF T] by simp
    then show "k \<in> {k. \<exists>leaf i v. leafHolds t leaf i k v}" by blast
  next
    fix k assume "k \<in> {k. \<exists>leaf i v. leafHolds t leaf i k v}"
    then obtain v where "\<exists>leaf i. leafHolds t leaf i k v" by blast
    then have "(k, v) \<in> set (entries T)" using leafHolds_entries [OF T] by simp
    then show "k \<in> set (map fst (entries T))" by force
  qed
  then have ks: "set (concat (map (\<lambda>a. nodeKeys (heap t ! a)) ls))
                   = {k. \<exists>leaf i v. leafHolds t leaf i k v}"
    unfolding ke .
  show ?thesis
    by (intro exI [of _ "fst (hd (leaves T))"] exI [of _ ls] conjI lm wk di st so ks)
qed

theorem leaf_chain_witness:
  "\<exists>t. inserts emptyTree [(10, 100), (20, 200), (5, 50), (6, 60)] = Some t \<and> root t = Some 2
      \<and> leftmostLeaf (heap t) 2 = Some 0 \<and> walkLeaves (heap t) (Some 0) = Some [0, 1]
      \<and> sorted_wrt (<) (concat (map (\<lambda>a. nodeKeys (heap t ! a)) [0, 1]))"
proof -
  let ?t = "\<lparr>heap = [BPlusLeafNode [5, 6] [50, 60] (Some 1), BPlusLeafNode [10, 20] [100, 200] None,
                  BPlusInternalNode [10] [0, 1]],
           root = Some 2\<rparr>"
  have r: "root ?t = Some 2" by simp
  have a: "leftmostLeaf (heap ?t) 2 = Some 0" by code_simp
  have b: "walkLeaves (heap ?t) (Some 0) = Some [0, 1]" by code_simp
  from leaf_chain [OF four_inserts r]
  obtain first ls where "leftmostLeaf (heap ?t) 2 = Some first"
    "walkLeaves (heap ?t) (Some first) = Some ls"
    "sorted_wrt (<) (concat (map (\<lambda>a. nodeKeys (heap ?t ! a)) ls))"
    by (elim exE conjE)
  then have "sorted_wrt (<) (concat (map (\<lambda>a. nodeKeys (heap ?t ! a)) [0, 1]))"
    using a b by simp
  then show ?thesis using four_inserts a b by (intro exI [of _ ?t]) simp
qed

lemma subtree_plug: "s \<in> set (subtrees T) \<Longrightarrow> \<exists>C. T = plug C s"
proof (induction T)
  case (ALeaf a ks vs nx)
  then have "ALeaf a ks vs nx = plug [] s" by simp
  then show ?case by blast
next
  case (ANode a ks ts)
  show ?case
  proof (cases "s = ANode a ks ts")
    case True
    then have "ANode a ks ts = plug [] s" by simp
    then show ?thesis by blast
  next
    case False
    then obtain t where t: "t \<in> set ts" "s \<in> set (subtrees t)"
      using ANode.prems by auto
    then obtain C where C: "t = plug C s" using ANode.IH by blast
    obtain ls rs where "ts = ls @ t # rs" using t(1) by (meson split_list)
    then have "ANode a ks ts = plug (C @ [Frame a ks ls rs]) s"
      using C by (simp add: plug_append)
    then show ?thesis by blast
  qed
qed

lemma plug_subtree: "s \<in> set (subtrees (plug C s))"
proof (induction C arbitrary: s)
  case Nil
  then show ?case by (simp add: self_subtree)
next
  case (Cons f C)
  obtain p ks ls rs where f: "f = Frame p ks ls rs" by (cases f)
  have "s \<in> set (subtrees (plug1 f s))" by (simp add: f self_subtree)
  then show ?case using Cons [of "plug1 f s"] subtrees_trans by auto
qed

lemma parent_in_tree:
  assumes rep: "repr h (plug (f # C) x)" and dist: "distinct (addrs (plug (f # C) x))"
  shows "findParent h (Some (addrOf (plug (f # C) x))) (addrOf x) = Some (Some (faddr f))"
    and "reaches h (addrOf (plug (f # C) x)) (faddr f)"
    and "\<exists>ks cs. h ! faddr f = BPlusInternalNode ks cs \<and> addrOf x \<in> set cs"
    and "addrOf x \<noteq> addrOf (plug (f # C) x)"
proof -
  obtain p ks ls rs where f: "f = Frame p ks ls rs" by (cases f)
  have ctx: "reprCtx h (f # C) (addrOf x)"
    using rep by (simp only: repr_plug)
  have notin: "addrOf x \<notin> set (ctxAddrs (f # C))"
    using dist addrOf_in_addrs [of x] by (auto simp only: distinct_plug distinct_append)
  show "findParent h (Some (addrOf (plug (f # C) x))) (addrOf x) = Some (Some (faddr f))"
    using ctx notin by (rule findParent_plug)
  have "plug1 f x \<in> set (subtrees (plug C (plug1 f x)))" by (rule plug_subtree)
  then have "reaches h (addrOf (plug C (plug1 f x))) (addrOf (plug1 f x))"
    using rep by (intro subtree_reaches) simp_all
  then show "reaches h (addrOf (plug (f # C) x)) (faddr f)" by (simp add: f)
  show "\<exists>ks cs. h ! faddr f = BPlusInternalNode ks cs \<and> addrOf x \<in> set cs"
    using ctx by (simp add: f)
  show "addrOf x \<noteq> addrOf (plug (f # C) x)"
    using notin last_in_ctxAddrs [of "f # C"] unfolding addrOf_plug_Cons by auto
qed

lemma parent_unique:
  assumes rep: "repr h T" and dist: "distinct (addrs T)" and s: "s \<in> set (subtrees T)"
    and q: "reaches h (addrOf T) q" "h ! q = BPlusInternalNode ks cs" "addrOf s \<in> set cs"
  shows "findParent h (Some (addrOf T)) (addrOf s) = Some (Some q)"
proof -
  from reaches_subtree [OF rep q(1)]
  obtain sq where sq: "sq \<in> set (subtrees T)" "addrOf sq = q" by blast
  have "repr h sq" using rep sq(1) by (rule repr_subtree)
  then obtain ts where ts: "sq = ANode q ks ts" "cs = map addrOf ts"
    using q(2) sq(2) by (cases sq) auto
  then obtain t' where t': "t' \<in> set ts" "addrOf t' = addrOf s" using q(3) by auto
  have "t' \<in> set (subtrees T)"
    using sq(1) ts(1) t'(1) self_subtree [of t'] by (meson child_subtree subtrees_trans)
  then have "t' = s" using subtree_unique [OF dist _ s] t'(2) by simp
  then obtain ls rs where lr: "ts = ls @ s # rs" using t'(1) by (meson split_list)
  obtain Cq where Cq: "T = plug Cq sq" using subtree_plug [OF sq(1)] by blast
  have T: "T = plug (Frame q ks ls rs # Cq) s" by (simp add: Cq ts(1) lr)
  show ?thesis
    using parent_in_tree(1) [of h "Frame q ks ls rs" Cq s] rep dist unfolding T by simp
qed

lemma pending_parent:
  assumes "pending s k a b"
  shows "\<exists>r p ks cs. root s = Some r \<and> a \<noteq> r
           \<and> findParent (heap s) (root s) a = Some (Some p)
           \<and> reaches (heap s) r p \<and> heap s ! p = BPlusInternalNode ks cs \<and> a \<in> set cs
           \<and> (\<forall>q ks' cs'. reaches (heap s) r q \<and> heap s ! q = BPlusInternalNode ks' cs'
                 \<and> a \<in> set cs' \<longrightarrow> q = p)"
proof -
  from assms obtain f C l r where P: "root s = Some (addrOf (plug (f # C) l))"
    "reprCtx (heap s) (f # C) (addrOf l)" "repr (heap s) l"
    "distinct (ctxAddrs (f # C) @ addrs l @ addrs r)" "a = addrOf l"
    unfolding pending_def by blast
  let ?T = "plug (f # C) l"
  have rep: "repr (heap s) ?T" using P(2,3) by (simp only: repr_plug)
  have dist: "distinct (addrs ?T)" using P(4) unfolding distinct_plug by auto
  note pt = parent_in_tree [OF rep dist]
  obtain ks cs where cell: "heap s ! faddr f = BPlusInternalNode ks cs" "addrOf l \<in> set cs"
    using pt(3) by blast
  have sub: "l \<in> set (subtrees ?T)" by (rule plug_subtree)
  have u: "\<forall>q ks' cs'. reaches (heap s) (addrOf ?T) q \<and> heap s ! q = BPlusInternalNode ks' cs'
                 \<and> a \<in> set cs' \<longrightarrow> q = faddr f"
  proof (intro allI impI, elim conjE)
    fix q ks' cs'
    assume "reaches (heap s) (addrOf ?T) q" "heap s ! q = BPlusInternalNode ks' cs'" "a \<in> set cs'"
    then have "findParent (heap s) (Some (addrOf ?T)) (addrOf l) = Some (Some q)"
      using parent_unique [OF rep dist sub] P(5) by simp
    then show "q = faddr f" using pt(1) by simp
  qed
  show ?thesis
    using P(1,5) pt(1,2,4) cell u
    by (intro exI [of _ "addrOf ?T"] exI [of _ "faddr f"] exI [of _ ks] exI [of _ cs]) simp
qed

lemma split_leaf_pending:
  assumes root: "root t1 = Some (addrOf (plug (f # C) (ALeaf a ks vs nx)))"
    and rep: "repr (heap t1) (plug (f # C) (ALeaf a ks vs nx))"
    and dist: "distinct (addrs (plug (f # C) (ALeaf a ks vs nx)))"
    and shape: "list_all shapeF (f # C)"
    and len: "length vs = length ks" "ks \<noteq> []"
    and sp: "splitLeafHalves t1 a = Some (s, k, b)"
    and sm: "list_all smallF (f # C)" and oc: "orderedCtx (f # C)"
    and ol: "ordered (ctxLo (f # C)) (ctxHi (f # C)) (ALeaf a ks vs nx)"
    and two: "2 \<le> length ks"
  shows "pending s k a b"
proof -
  define n where "n = length (heap t1)"
  define m where "m = length ks div 2"
  define t2 where "t2 = t1\<lparr>heap := (heap t1 @ [BPlusLeafNode (drop m ks) (drop m vs) nx])
                           [a := BPlusLeafNode (take m ks) (take m vs) (Some n)]\<rparr>"
  let ?l = "ALeaf a (take m ks) (take m vs) (Some n)"
  let ?r = "ALeaf n (drop m ks) (drop m vs) nx"
  have ctx: "reprCtx (heap t1) (f # C) a" and cell: "a < length (heap t1)"
    "heap t1 ! a = BPlusLeafNode ks vs nx"
    using rep by (auto simp: repr_plug simp del: plug.simps reprCtx.simps)
  have dC: "distinct (ctxAddrs (f # C))" "a \<notin> set (ctxAddrs (f # C))"
    using dist by (simp_all add: distinct_plug del: plug.simps)
  have "splitLeafHalves t1 a = Some (t2, hd (drop m ks), n)"
    unfolding n_def m_def
    by (rule splitLeafHalves_step [OF cell len]) (simp add: t2_def m_def n_def)
  then have s: "s = t2" and b: "b = n" and k: "k = hd (drop m ks)" using sp by simp_all
  have an: "a < n" "a \<noteq> n" using cell(1) by (auto simp: n_def)
  have less: "\<And>c. c \<in> set (ctxAddrs (f # C)) \<Longrightarrow> c < n"
    using reprCtx_less [OF ctx] by (simp add: n_def)
  have 1: "root t2 = Some (addrOf (plug (f # C) ?l))"
    using root unfolding addrOf_plug_Cons by (simp add: t2_def)
  have 2: "reprCtx (heap t2) (f # C) (addrOf ?l)"
    using ctx dC(2) by (simp add: t2_def reprCtx_update reprCtx_append del: reprCtx.simps)
  have 3: "repr (heap t2) ?l" using cell(1) by (simp add: t2_def)
  have 4: "repr (heap t2) ?r" using an by (simp add: t2_def n_def)
  have 5: "distinct (ctxAddrs (f # C) @ addrs ?l @ addrs ?r)"
    using dC an less by (auto simp del: ctxAddrs.simps)
  have h: "halves n (ALeaf a ks vs nx) = (?l, k, ?r)" by (simp add: m_def k)
  note 6 = ordered_halves_leaf [OF ol two h]
  show ?thesis
    unfolding pending_def s b
    using 1 2 3 4 5 shape sm oc 6
    by (intro exI [of _ f] exI [of _ C] exI [of _ ?l] exI [of _ ?r]) simp
qed

lemma split_internal_pending:
  assumes root: "root s = Some (addrOf (plug (Frame p ks ls rs # g # C) l))"
    and ctx: "reprCtx (heap s) (Frame p ks ls rs # g # C) (addrOf l)"
    and l: "repr (heap s) l" and r: "repr (heap s) r"
    and dist: "distinct (ctxAddrs (Frame p ks ls rs # g # C) @ addrs l @ addrs r)"
    and shape: "list_all shapeF (Frame p ks ls rs # g # C)"
    and at: "attach s p k (addrOf l) (addrOf r) = Some s2"
    and sp: "splitInternalHalves s2 p = Some (s3, k', b')"
    and sm: "list_all smallF (Frame p ks ls rs # g # C)"
    and oc: "orderedCtx (Frame p ks ls rs # g # C)"
    and ol: "ordered (ctxLo (Frame p ks ls rs # g # C)) (Some k) l"
    and or: "ordered (Some k) (ctxHi (Frame p ks ls rs # g # C)) r"
    and kb: "gtLo (ctxLo (Frame p ks ls rs # g # C)) k" "ltHi (ctxHi (Frame p ks ls rs # g # C)) k"
  shows "pending s3 k' p b'"
proof -
  define ks' where "ks' = take (length ls) ks @ k # drop (length ls) ks"
  define ts' where "ts' = ls @ l # r # rs"
  define t2 where "t2 = s\<lparr>heap := (heap s)[p := BPlusInternalNode ks' (map addrOf ts')]\<rparr>"
  have sh: "length ls + length rs = length ks" using shape by simp
  note st = attach_step [OF root ctx l r dist sh ks'_def ts'_def t2_def]
  have s2: "s2 = t2" using st(2) at by simp
  define mid where "mid = length ks' div 2"
  define t3 where "t3 = t2\<lparr>heap := (heap t2 @ [BPlusInternalNode (drop (Suc mid) ks')
                                          (map addrOf (drop (Suc mid) ts'))])
                              [p := BPlusInternalNode (take mid ks')
                                      (map addrOf (take (Suc mid) ts'))]\<rparr>"
  have pC: "p \<notin> set (ctxAddrs (g # C))" using dist by simp
  have pts: "\<And>x. x \<in> set ts' \<Longrightarrow> p \<notin> set (addrs x)"
    using dist by (auto simp: ts'_def)
  have len: "length ts' = Suc (length ks')" "ks' \<noteq> []"
    using sh by (auto simp: ts'_def ks'_def)
  note spl = split_step [OF st(3) st(4) pC pts len mid_def t3_def]
  have s3: "s3 = t3" and b': "b' = length (heap t2)" and k': "k' = ks' ! mid"
    using spl(1) sp s2 by simp_all
  have len2: "length (heap t2) = length (heap s)" by (simp add: t2_def)
  let ?l = "ANode p (take mid ks') (take (Suc mid) ts')"
  let ?r = "ANode (length (heap s)) (drop (Suc mid) ks') (drop (Suc mid) ts')"
  have less: "\<And>a. a \<in> set (ctxAddrs (Frame p ks ls rs # g # C) @ addrs l @ addrs r)
                \<Longrightarrow> a < length (heap s)"
    using reprCtx_less [OF ctx] repr_less [OF l] repr_less [OF r] by auto
  have 5: "distinct (ctxAddrs (g # C) @ addrs ?l @ addrs ?r)"
    using fresh_distinct [OF split_addrs [OF ts'_def] dist less] by blast
  have 1: "root t3 = Some (addrOf (plug (g # C) ?l))"
    using root unfolding addrOf_plug_Cons by (simp add: t3_def t2_def)
  have 2: "reprCtx (heap t3) (g # C) (addrOf ?l)" using spl(4) by simp
  have 4: "repr (heap t3) ?r" using spl(3) by (simp only: len2)
  have 6: "list_all shapeF (g # C)" "list_all smallF (g # C)" "orderedCtx (g # C)"
    using shape sm oc by simp_all
  have ab: "absorb (Frame p ks ls rs) l k r = ANode p ks' ts'"
    by (simp add: ks'_def ts'_def)
  have "ordered (ctxLo (g # C)) (ctxHi (g # C)) (absorb (Frame p ks ls rs) l k r)"
    using oc ol or kb by (intro ordered_absorb) simp_all
  then have on: "ordered (ctxLo (g # C)) (ctxHi (g # C)) (ANode p ks' ts')"
    unfolding ab .
  have h: "halves (length (heap s)) (ANode p ks' ts') = (?l, k', ?r)"
    by (simp add: mid_def k')
  note 7 = ordered_halves_node [OF on len(2) h]
  show ?thesis
    unfolding pending_def s3 b' len2
    using 1 2 spl(2) 4 5 6 7
    by (intro exI [of _ g] exI [of _ C] exI [of _ ?l] exI [of _ ?r]) simp
qed

lemma promotes_pending:
  assumes "treeInv t T" and "promotes t key val s k a b"
  shows "pending s k a b"
  using assms(2)
proof (induction rule: promotes.induct)
  case (leaf r leaf ks vs nx ks' vs' s k b)
  from treeInv_path [OF assms(1), of key]
  obtain C a0 ks0 vs0 nx0 where P: "T = plug C (ALeaf a0 ks0 vs0 nx0)"
    and path: "list_all (onPath key) C"
    and oc: "orderedCtx C" and ol: "ordered (ctxLo C) (ctxHi C) (ALeaf a0 ks0 vs0 nx0)"
    and sm: "list_all smallF C"
    by blast
  have root: "root t = Some (addrOf (plug C (ALeaf a0 ks0 vs0 nx0)))"
    and rep: "repr (heap t) (plug C (ALeaf a0 ks0 vs0 nx0))"
    and dist: "distinct (addrs (plug C (ALeaf a0 ks0 vs0 nx0)))"
    using assms(1) by (auto simp: treeInv_def P)
  have "findLeaf t key = Some (Some a0)" using root rep path by (rule findLeaf_plug)
  then have a0: "a0 = leaf" using leaf.hyps(2) by simp
  have "heap t ! a0 = BPlusLeafNode ks0 vs0 nx0" using rep by (simp add: repr_plug)
  then have eq: "ks0 = ks" "vs0 = vs" "nx0 = nx" using leaf.hyps(4) a0 by simp_all
  have lv: "length vs = length ks" "sorted_wrt (<) ks" using ol eq by auto
  have nk: "key \<notin> set ks" using leaf.hyps(5) by (simp add: keyIndex_None)
  from bubble_append [OF lv nk, of val] leaf.hyps(6)
  have b: "length ks' = Suc (length ks)" "length vs' = length ks'"
    "sorted_wrt (<) ks'" "set ks' = insert key (set ks)" by auto
  have kb: "geLo (ctxLo C) key" "ltHi (ctxHi C) key"
    using route_bounds [OF path] by auto
  have ol': "ordered (ctxLo C) (ctxHi C) (ALeaf leaf ks' vs' nx)"
    using ol eq b kb by auto
  have two: "2 \<le> length ks'" using leaf.hyps(7) by (simp add: kOrder_def)
  define t1 where "t1 = t\<lparr>heap := (heap t)[leaf := BPlusLeafNode ks' vs' nx]\<rparr>"
  note w = leaf_write [OF root [unfolded a0 eq] rep [unfolded a0 eq] dist [unfolded a0 eq] t1_def]
  have sp: "splitLeafHalves t1 leaf = Some (s, k, b)" using leaf.hyps(8) by (simp add: t1_def)
  have rs: "root s = root t1" using sp by (auto simp: splitLeafHalves_def Let_def split: if_splits BPlusNode.splits)
  have "C \<noteq> []"
  proof
    assume "C = []"
    then have "root t1 = Some leaf" using w(1) by simp
    then show False using leaf.hyps(9) rs by simp
  qed
  then obtain f C' where C: "C = f # C'" by (cases C) auto
  have d1: "distinct (addrs (plug (f # C') (ALeaf leaf ks' vs' nx)))"
    using dist [unfolded a0 eq C] by (simp only: distinct_plug addrs.simps)
  have ne: "ks' \<noteq> []" using b(1) by auto
  show ?case
    using split_leaf_pending [OF w(1) [unfolded C] w(2) [unfolded C] d1 _ b(2) ne sp
        sm [unfolded C] oc [unfolded C] ol' [unfolded C] two]
      orderedCtx_shape [OF oc] C by simp
next
  case (up s k a b p s2 s3 k' b')
  then obtain f C l r where P: "root s = Some (addrOf (plug (f # C) l))"
    "reprCtx (heap s) (f # C) (addrOf l)" "repr (heap s) l" "repr (heap s) r"
    "distinct (ctxAddrs (f # C) @ addrs l @ addrs r)"
    "list_all shapeF (f # C)" "a = addrOf l" "b = addrOf r"
    and O: "list_all smallF (f # C)" "orderedCtx (f # C)"
    "ordered (ctxLo (f # C)) (Some k) l" "ordered (Some k) (ctxHi (f # C)) r"
    "gtLo (ctxLo (f # C)) k" "ltHi (ctxHi (f # C)) k"
    unfolding pending_def by blast
  obtain p0 ks ls rs where f: "f = Frame p0 ks ls rs" by (cases f)
  have sh: "length ls + length rs = length ks" using P(6) by (simp add: f)
  from attach_step(1) [OF P(1-5) [unfolded f] sh refl refl refl]
  have p0: "p0 = p" using up.hyps(2) P(7) by simp
  have rs3: "root s3 = root s"
    using up.hyps(3,5)
    by (auto simp: attach_def splitInternalHalves_def Let_def insertAt_def
        split: if_splits BPlusNode.splits)
  have "C \<noteq> []"
  proof
    assume "C = []"
    then have "root s = Some p" using P(1) by (simp add: f p0)
    then show False using up.hyps(6) rs3 by simp
  qed
  then obtain g C' where C: "C = g # C'" by (cases C) auto
  show ?case
    using split_internal_pending [OF P(1-6) [unfolded f C p0] up.hyps(3) [unfolded P(7,8)]
        up.hyps(5) O [unfolded f C p0]] .
qed

lemma promotes_root: "promotes t key val s k a b \<Longrightarrow> root t \<noteq> None"
  by (induction rule: promotes.induct) auto

text \<open>The calls that \<open>promotes\<close> lists lie on the execution of the insertion: its result is
  the result of each of them.\<close>

lemma promotes_on_path:
  "promotes t key val s k a b \<Longrightarrow> insert_tree t key val = insertInternalUpKey s k a b"
proof (induction rule: promotes.induct)
  case (leaf r leaf ks vs nx ks' vs' s k b)
  have "insert_tree t key val
          = splitLeafNode (t\<lparr>heap := (heap t)[leaf := BPlusLeafNode ks' vs' nx]\<rparr>) leaf"
    using insert_tree_found [OF leaf.hyps(1-4), of val] leaf.hyps(5-7) by simp
  also have "\<dots> = insertInternalUpKey s k leaf b"
    using leaf.hyps(8,9) by (simp add: splitLeafNode_def insertInternalNode_eq)
  finally show ?case .
next
  case (up s k a b p s2 s3 k' b')
  have "insertInternalUpKey s k a b = splitInternalNode s2 p"
    using insertInternalUpKey_found [OF up.hyps(2,3)] up.hyps(4) by simp
  also have "\<dots> = insertInternalUpKey s3 k' p b'"
    using up.hyps(5,6) by (simp add: splitInternalNode_unfold)
  finally show ?case using up.IH by simp
qed

lemma steady_parent:
  assumes "treeInv t T" and "root t = Some r" and "reaches (heap t) r a" and "a \<noteq> r"
  shows "\<exists>p ks cs. findParent (heap t) (root t) a = Some (Some p)
           \<and> reaches (heap t) r p \<and> heap t ! p = BPlusInternalNode ks cs \<and> a \<in> set cs
           \<and> (\<forall>q ks' cs'. reaches (heap t) r q \<and> heap t ! q = BPlusInternalNode ks' cs'
                 \<and> a \<in> set cs' \<longrightarrow> q = p)"
proof -
  have rep: "repr (heap t) T" and root: "r = addrOf T" and dist: "distinct (addrs T)"
    using assms(1,2) by (auto simp: treeInv_def)
  from reaches_subtree [OF rep assms(3) [unfolded root]]
  obtain s where s: "s \<in> set (subtrees T)" "addrOf s = a" by blast
  obtain C where C: "T = plug C s" using subtree_plug [OF s(1)] by blast
  have "C \<noteq> []" using C s(2) assms(4) root by auto
  then obtain f C' where f: "C = f # C'" by (cases C) auto
  note pt = parent_in_tree [OF rep [unfolded C f] dist [unfolded C f]]
  obtain ks cs where cell: "heap t ! faddr f = BPlusInternalNode ks cs" "a \<in> set cs"
    using pt(3) s(2) by blast
  have u: "\<forall>q ks' cs'. reaches (heap t) r q \<and> heap t ! q = BPlusInternalNode ks' cs'
                 \<and> a \<in> set cs' \<longrightarrow> q = faddr f"
  proof (intro allI impI, elim conjE)
    fix q ks' cs'
    assume "reaches (heap t) r q" "heap t ! q = BPlusInternalNode ks' cs'" "a \<in> set cs'"
    then have "findParent (heap t) (Some (addrOf T)) (addrOf s) = Some (Some q)"
      using parent_unique [OF rep dist s(1)] s(2) root by simp
    then show "q = faddr f" using pt(1) by (simp add: C f)
  qed
  have fp: "findParent (heap t) (root t) a = Some (Some (faddr f))"
    using pt(1) assms(2) root s(2) by (simp add: C f)
  have rp: "reaches (heap t) r (faddr f)" using pt(2) root by (simp add: C f)
  show ?thesis
    by (intro exI [of _ "faddr f"] exI [of _ ks] exI [of _ cs] conjI)
      (rule fp rp cell u)+
qed

text \<open>
  Claim C9. In every state reached by insertions from the empty tree, an insertion ends
  \<open>Completed\<close>: the early return taken when \<open>findParent\<close> yields no parent is never
  reached. Every promotion entered while the insertion runs (after the split of a node
  that is not the root) lies on its execution, its left child is not the root, and
  \<open>findParent\<close> returns for it an internal node reachable from the root that holds the left
  child among its children, the only reachable node that does. The same holds in the
  state between insertions for every reachable node other than the root.
\<close>

theorem parent_always_found:
  assumes "inserts emptyTree kvs = Some t"
  shows "(\<exists>t'. insert_tree t key val = Some (Completed t'))
       \<and> (\<forall>s k a b. promotes t key val s k a b \<longrightarrow>
             insert_tree t key val = insertInternalUpKey s k a b
             \<and> (\<exists>r p ks cs. root s = Some r \<and> a \<noteq> r
                   \<and> findParent (heap s) (root s) a = Some (Some p)
                   \<and> reaches (heap s) r p \<and> heap s ! p = BPlusInternalNode ks cs \<and> a \<in> set cs
                   \<and> (\<forall>q ks' cs'. reaches (heap s) r q \<and> heap s ! q = BPlusInternalNode ks' cs'
                         \<and> a \<in> set cs' \<longrightarrow> q = p)))
       \<and> (\<forall>r a. root t = Some r \<and> reaches (heap t) r a \<and> a \<noteq> r \<longrightarrow>
             (\<exists>p ks cs. findParent (heap t) (root t) a = Some (Some p)
                \<and> reaches (heap t) r p \<and> heap t ! p = BPlusInternalNode ks cs \<and> a \<in> set cs
                \<and> (\<forall>q ks' cs'. reaches (heap t) r q \<and> heap t ! q = BPlusInternalNode ks' cs'
                      \<and> a \<in> set cs' \<longrightarrow> q = p)))"
proof (intro conjI allI impI)
  have d: "describes t (latest kvs)" using reachable_describes [of kvs] assms by auto
  show "\<exists>t'. insert_tree t key val = Some (Completed t')"
    using insert_describes [OF d, of key val] by blast
  {
    fix s k a b assume pr: "promotes t key val s k a b"
    show "insert_tree t key val = insertInternalUpKey s k a b"
      using pr by (rule promotes_on_path)
    obtain T where T: "treeInv t T"
      using d promotes_root [OF pr] by (auto simp: describes_def)
    show "\<exists>r p ks cs. root s = Some r \<and> a \<noteq> r
                   \<and> findParent (heap s) (root s) a = Some (Some p)
                   \<and> reaches (heap s) r p \<and> heap s ! p = BPlusInternalNode ks cs \<and> a \<in> set cs
                   \<and> (\<forall>q ks' cs'. reaches (heap s) r q \<and> heap s ! q = BPlusInternalNode ks' cs'
                         \<and> a \<in> set cs' \<longrightarrow> q = p)"
      using promotes_pending [OF T pr] by (rule pending_parent)
  }
  {
    fix r a assume h: "root t = Some r \<and> reaches (heap t) r a \<and> a \<noteq> r"
    then obtain T where T: "treeInv t T" using d by (auto simp: describes_def)
    show "\<exists>p ks cs. findParent (heap t) (root t) a = Some (Some p)
                \<and> reaches (heap t) r p \<and> heap t ! p = BPlusInternalNode ks cs \<and> a \<in> set cs
                \<and> (\<forall>q ks' cs'. reaches (heap t) r q \<and> heap t ! q = BPlusInternalNode ks' cs'
                      \<and> a \<in> set cs' \<longrightarrow> q = p)"
      using steady_parent [OF T] h by blast
  }
qed

lemma five_inserts:
  "inserts emptyTree [(10, 100), (20, 200), (5, 50), (6, 60), (15, 150)] =
     Some \<lparr>heap = [BPlusLeafNode [5, 6] [50, 60] (Some 1),
                  BPlusLeafNode [10, 15, 20] [100, 150, 200] None,
                  BPlusInternalNode [10] [0, 1]],
           root = Some 2\<rparr>"
  by code_simp

theorem parent_always_found_witness:
  "\<exists>t s. inserts emptyTree [(10, 100), (20, 200), (5, 50), (6, 60), (15, 150)] = Some t
      \<and> promotes t 25 250 s 20 1 3
      \<and> findParent (heap s) (root s) 1 = Some (Some 2)
      \<and> (\<exists>t'. insert_tree t 25 250 = Some (Completed t'))
      \<and> insert_tree t 25 250 = insertInternalUpKey s 20 1 3"
proof -
  let ?t = "\<lparr>heap = [BPlusLeafNode [5, 6] [50, 60] (Some 1),
                  BPlusLeafNode [10, 15, 20] [100, 150, 200] None,
                  BPlusInternalNode [10] [0, 1]],
           root = Some 2\<rparr>"
  let ?s = "\<lparr>heap = [BPlusLeafNode [5, 6] [50, 60] (Some 1),
                  BPlusLeafNode [10, 15] [100, 150] (Some 3),
                  BPlusInternalNode [10] [0, 1],
                  BPlusLeafNode [20, 25] [200, 250] None],
           root = Some 2\<rparr>"
  have pr: "promotes ?t 25 250 ?s 20 1 3"
  proof (rule promotes.leaf [where r = 2 and ks = "[10, 15, 20]" and vs = "[100, 150, 200]"
        and nx = None and ks' = "[10, 15, 20, 25]" and vs' = "[100, 150, 200, 250]"])
    show "root ?t = Some 2" by simp
    show "findLeaf ?t 25 = Some (Some 1)" by code_simp
    show "1 < length (heap ?t)" by simp
    show "heap ?t ! 1 = BPlusLeafNode [10, 15, 20] [100, 150, 200] None" by simp
    show "keyIndex [10, 15, 20] 25 = None" by simp
    show "bubble (length [10, 15, 20]) ([10, 15, 20] @ [25]) ([100, 150, 200] @ [250])
            = Some ([10, 15, 20, 25], [100, 150, 200, 250])"
      by code_simp
    show "kOrder \<le> length [10, 15, 20, 25 :: int]" by (simp add: kOrder_def)
    show "splitLeafHalves (?t\<lparr>heap := (heap ?t)[1 := BPlusLeafNode [10, 15, 20, 25]
                                                    [100, 150, 200, 250] None]\<rparr>) 1
            = Some (?s, 20, 3)"
      by code_simp
    show "Some 1 \<noteq> root ?s" by simp
  qed
  note th = parent_always_found [OF five_inserts, of 25 250]
  have a: "\<exists>t'. insert_tree ?t 25 250 = Some (Completed t')"
    using th [THEN conjunct1] .
  have b: "insert_tree ?t 25 250 = insertInternalUpKey ?s 20 1 3"
    using th [THEN conjunct2, THEN conjunct1, rule_format, OF pr] by (rule conjunct1)
  have c: "findParent (heap ?s) (root ?s) 1 = Some (Some 2)" by code_simp
  show ?thesis
    apply (rule exI [of _ ?t])
    apply (rule exI [of _ ?s])
    apply (intro conjI)
        apply (rule five_inserts)
       apply (rule pr)
      apply (rule c)
     apply (rule a)
    apply (rule b)
    done
qed

lemma pending_attach:
  assumes "pending s k a b"
  shows "\<exists>p ks cs i. findParent (heap s) (root s) a = Some (Some p)
           \<and> p < length (heap s) \<and> heap s ! p = BPlusInternalNode ks cs
           \<and> length cs = length ks + 1 \<and> length ks < kOrder
           \<and> i < length cs \<and> cs ! i = a \<and> a \<notin> set (take i cs)
           \<and> attach s p k a b =
               Some (s\<lparr>heap := (heap s)[p := BPlusInternalNode (take i ks @ k # drop i ks)
                                           (take (Suc i) cs @ b # drop (Suc i) cs)]\<rparr>)
           \<and> sorted_wrt (<) (take i ks @ k # drop i ks)"
proof -
  from assms obtain f C l r where P: "root s = Some (addrOf (plug (f # C) l))"
    "reprCtx (heap s) (f # C) (addrOf l)" "repr (heap s) l" "repr (heap s) r"
    "distinct (ctxAddrs (f # C) @ addrs l @ addrs r)"
    "list_all shapeF (f # C)" "a = addrOf l" "b = addrOf r"
    and O: "list_all smallF (f # C)" "orderedCtx (f # C)"
    "ordered (ctxLo (f # C)) (Some k) l" "ordered (Some k) (ctxHi (f # C)) r"
    "gtLo (ctxLo (f # C)) k" "ltHi (ctxHi (f # C)) k"
    unfolding pending_def by blast
  obtain p ks ls rs where f: "f = Frame p ks ls rs" by (cases f)
  define cs where "cs = map addrOf ls @ addrOf l # map addrOf rs"
  define ks' where "ks' = take (length ls) ks @ k # drop (length ls) ks"
  define ts' where "ts' = ls @ l # r # rs"
  define t2 where "t2 = s\<lparr>heap := (heap s)[p := BPlusInternalNode ks' (map addrOf ts')]\<rparr>"
  have sh: "length ls + length rs = length ks" using P(6) by (simp add: f)
  note st = attach_step [OF P(1-5) [unfolded f] sh ks'_def ts'_def t2_def]
  have cell: "p < length (heap s)" "heap s ! p = BPlusInternalNode ks cs"
    using P(2) by (auto simp: f cs_def)
  have lin: "addrOf l \<in> set (addrs l)" by (rule addrOf_in_addrs)
  have notin: "addrOf l \<notin> set (map addrOf ls)"
  proof
    assume "addrOf l \<in> set (map addrOf ls)"
    then obtain x where "x \<in> set ls" "addrOf x = addrOf l" by auto
    then have "addrOf l \<in> set (concat (map addrs ls))"
      using addrOf_in_addrs [of x] by auto
    then show False using P(5) lin by (auto simp: f)
  qed
  have ab: "absorb f l k r = ANode p ks' ts'" by (simp add: f ks'_def ts'_def)
  have "ordered (ctxLo C) (ctxHi C) (absorb f l k r)"
    using O by (intro ordered_absorb) simp_all
  then have "orderedList (ctxLo C) ks' (ctxHi C) ts'" unfolding ab by simp
  then have srt: "sorted_wrt (<) ks'" using orderedList_keys by blast
  have tk: "take (length ls) cs = map addrOf ls" by (simp add: cs_def)
  have cs': "take (Suc (length ls)) cs @ b # drop (Suc (length ls)) cs = map addrOf ts'"
    by (simp add: cs_def ts'_def P(8))
  have 1: "findParent (heap s) (root s) a = Some (Some p)" using st(1) P(7) by simp
  have 2: "length cs = length ks + 1" using sh by (simp add: cs_def)
  have 3: "length ks < kOrder" using O(1) by (simp add: f)
  have 4: "length ls < length cs" by (simp add: cs_def)
  have 5: "cs ! length ls = a" by (simp add: cs_def P(7) nth_append)
  have 6: "a \<notin> set (take (length ls) cs)" using notin by (simp add: tk P(7))
  have 7: "attach s p k a b =
             Some (s\<lparr>heap := (heap s)[p := BPlusInternalNode
                 (take (length ls) ks @ k # drop (length ls) ks)
                 (take (Suc (length ls)) cs @ b # drop (Suc (length ls)) cs)]\<rparr>)"
    using st(2) cs' by (simp add: t2_def ks'_def P(7,8))
  have 8: "sorted_wrt (<) (take (length ls) ks @ k # drop (length ls) ks)"
    using srt by (simp only: ks'_def)
  show ?thesis
    by (intro exI [of _ p] exI [of _ ks] exI [of _ cs] exI [of _ "length ls"] conjI)
      (rule 1 cell 2 3 4 5 6 7 8)+
qed

text \<open>
  Claim C7. Whenever \<^verbatim>\<open>splitInternalNode\<close> is entered during an insertion into a state
  reached by insertions from the empty tree, the node holds \<open>kOrder = 4\<close> keys and five
  children and is split at \<open>midIndex = 2\<close>: the key at position 2 is promoted and occurs in
  neither half, the key at position 3 goes to a newly allocated internal node, the keys
  at positions 0 and 1 stay; the children at positions 3 and 4 go to the new node, those
  at positions 0 to 2 stay. When the node was the root, the insertion ends with a new root
  holding the promoted key over the two halves. Otherwise \<open>findParent\<close> returns the node
  \<open>q\<close> that holds the split node at a position \<open>i\<close> of its children, the promoted key is
  written at position \<open>i\<close> of the keys of \<open>q\<close> and the new node at position \<open>i + 1\<close> of its
  children, the keys of \<open>q\<close> stay strictly ascending, and the insertion ends there unless
  \<open>q\<close> has reached \<open>kOrder\<close> keys, in which case \<open>q\<close> is split in turn.
\<close>

theorem internal_split:
  assumes "inserts emptyTree kvs = Some t" and "splitsInternal t key val s p"
  shows "\<exists>ks cs. p < length (heap s) \<and> heap s ! p = BPlusInternalNode ks cs
      \<and> length ks = kOrder \<and> length cs = kOrder + 1
      \<and> (let newInternal = length (heap s);
             upKey = ks ! 2;
             s1 = s\<lparr>heap := (heap s @ [BPlusInternalNode (drop 3 ks) (drop 3 cs)])
                               [p := BPlusInternalNode (take 2 ks) (take 3 cs)]\<rparr>
         in splitInternalHalves s p = Some (s1, upKey, newInternal)
          \<and> ks = take 2 ks @ upKey # drop 3 ks \<and> cs = take 3 cs @ drop 3 cs
          \<and> upKey \<notin> set (take 2 ks) \<and> upKey \<notin> set (drop 3 ks)
          \<and> insert_tree t key val = splitInternalNode s p
          \<and> (root s = Some p \<longrightarrow>
               splitInternalNode s p =
                 Some (Completed
                   (s1\<lparr>heap := heap s1 @ [BPlusInternalNode [upKey] [p, newInternal]],
                       root := Some (length (heap s1))\<rparr>)))
          \<and> (root s \<noteq> Some p \<longrightarrow>
               (\<exists>q pks pcs i. findParent (heap s1) (root s1) p = Some (Some q)
                  \<and> q < length (heap s1) \<and> heap s1 ! q = BPlusInternalNode pks pcs
                  \<and> length pcs = length pks + 1
                  \<and> i < length pcs \<and> pcs ! i = p \<and> p \<notin> set (take i pcs)
                  \<and> sorted_wrt (<) (take i pks @ upKey # drop i pks)
                  \<and> (let s2 = s1\<lparr>heap := (heap s1)[q := BPlusInternalNode
                                  (take i pks @ upKey # drop i pks)
                                  (take (Suc i) pcs @ newInternal # drop (Suc i) pcs)]\<rparr>
                     in splitInternalNode s p =
                          (if kOrder \<le> length pks + 1 then splitInternalNode s2 q
                           else Some (Completed s2))
                      \<and> (kOrder \<le> length pks + 1 \<longrightarrow> splitsInternal t key val s2 q)))))"
proof -
  from assms(2) obtain s0 k a b where pr: "promotes t key val s0 k a b"
    and fp: "findParent (heap s0) (root s0) a = Some (Some p)"
    and at: "attach s0 p k a b = Some s"
    and fl: "kOrder \<le> length (nodeKeys (heap s ! p))"
    by cases
  have d: "describes t (latest kvs)" using reachable_describes [of kvs] assms(1) by auto
  obtain T where T: "treeInv t T"
    using d promotes_root [OF pr] by (auto simp: describes_def)
  from pending_attach [OF promotes_pending [OF T pr]] fp
  obtain ks0 cs0 i0 where A: "p < length (heap s0)" "length cs0 = length ks0 + 1"
    "length ks0 < kOrder" "i0 < length cs0"
    "attach s0 p k a b =
       Some (s0\<lparr>heap := (heap s0)[p := BPlusInternalNode (take i0 ks0 @ k # drop i0 ks0)
                                   (take (Suc i0) cs0 @ b # drop (Suc i0) cs0)]\<rparr>)"
    "sorted_wrt (<) (take i0 ks0 @ k # drop i0 ks0)"
    by auto
  define ks where "ks = take i0 ks0 @ k # drop i0 ks0"
  define cs where "cs = take (Suc i0) cs0 @ b # drop (Suc i0) cs0"
  have s: "s = s0\<lparr>heap := (heap s0)[p := BPlusInternalNode ks cs]\<rparr>"
    using A(5) at by (simp add: ks_def cs_def)
  have cell: "p < length (heap s)" "heap s ! p = BPlusInternalNode ks cs"
    using A(1) by (simp_all add: s)
  have "length ks = Suc (length ks0)" using A(2,4) by (simp add: ks_def)
  moreover have "length cs = Suc (length cs0)" using A(4) by (simp add: cs_def)
  ultimately have len: "length ks = kOrder" "length cs = kOrder + 1"
    using fl A(2,3) cell(2) by simp_all
  have dist: "distinct ks" using A(6) by (simp only: ks_def strict_sorted_iff)
  define n where "n = length (heap s)"
  define upKey where "upKey = ks ! 2"
  define s1 where "s1 = s\<lparr>heap := (heap s @ [BPlusInternalNode (drop 3 ks) (drop 3 cs)])
                               [p := BPlusInternalNode (take 2 ks) (take 3 cs)]\<rparr>"
  note four = splitInternalNode_four [OF cell len, unfolded Let_def, folded n_def upKey_def,
      folded s1_def]
  have sp: "splitInternalHalves s p = Some (s1, upKey, n)" using four by (rule conjunct1)
  have ksq: "ks = take 2 ks @ upKey # drop 3 ks" and csq: "cs = take 3 cs @ drop 3 cs"
    using four by blast+
  have up: "upKey \<notin> set (take 2 ks)" "upKey \<notin> set (drop 3 ks)"
    using four dist by blast+
  have run: "splitInternalNode s p =
              (if root s = Some p
               then Some (Completed
                      (s1\<lparr>heap := heap s1 @ [BPlusInternalNode [upKey] [p, n]],
                          root := Some (length (heap s1))\<rparr>))
               else insertInternalUpKey s1 upKey p n)"
    using four by blast
  have path: "insert_tree t key val = splitInternalNode s p"
    using promotes_on_path [OF pr] insertInternalUpKey_found [OF fp at] fl by simp
  have rootcase: "root s = Some p \<longrightarrow>
               splitInternalNode s p =
                 Some (Completed
                   (s1\<lparr>heap := heap s1 @ [BPlusInternalNode [upKey] [p, n]],
                       root := Some (length (heap s1))\<rparr>))"
    using run by simp
  have inner: "\<exists>q pks pcs i. findParent (heap s1) (root s1) p = Some (Some q)
                  \<and> q < length (heap s1) \<and> heap s1 ! q = BPlusInternalNode pks pcs
                  \<and> length pcs = length pks + 1
                  \<and> i < length pcs \<and> pcs ! i = p \<and> p \<notin> set (take i pcs)
                  \<and> sorted_wrt (<) (take i pks @ upKey # drop i pks)
                  \<and> (let s2 = s1\<lparr>heap := (heap s1)[q := BPlusInternalNode
                                  (take i pks @ upKey # drop i pks)
                                  (take (Suc i) pcs @ n # drop (Suc i) pcs)]\<rparr>
                     in splitInternalNode s p =
                          (if kOrder \<le> length pks + 1 then splitInternalNode s2 q
                           else Some (Completed s2))
                      \<and> (kOrder \<le> length pks + 1 \<longrightarrow> splitsInternal t key val s2 q))"
    if nr: "root s \<noteq> Some p"
  proof -
    have "root s1 = root s" by (simp add: s1_def)
    then have ne: "Some p \<noteq> root s1" using nr by simp
    have pr1: "promotes t key val s1 upKey p n"
      using pr fp at fl sp ne by (rule promotes.up)
    from pending_attach [OF promotes_pending [OF T pr1]]
    obtain q pks pcs i where B: "findParent (heap s1) (root s1) p = Some (Some q)"
      "q < length (heap s1)" "heap s1 ! q = BPlusInternalNode pks pcs"
      "length pcs = length pks + 1" "length pks < kOrder"
      "i < length pcs" "pcs ! i = p" "p \<notin> set (take i pcs)"
      "attach s1 q upKey p n =
         Some (s1\<lparr>heap := (heap s1)[q := BPlusInternalNode (take i pks @ upKey # drop i pks)
                                     (take (Suc i) pcs @ n # drop (Suc i) pcs)]\<rparr>)"
      "sorted_wrt (<) (take i pks @ upKey # drop i pks)"
      by blast
    define s2 where "s2 = s1\<lparr>heap := (heap s1)[q := BPlusInternalNode
                                  (take i pks @ upKey # drop i pks)
                                  (take (Suc i) pcs @ n # drop (Suc i) pcs)]\<rparr>"
    have at1: "attach s1 q upKey p n = Some s2" using B(9) by (simp only: s2_def)
    have lk: "length (nodeKeys (heap s2 ! q)) = length pks + 1"
      using B(2,4,6) by (simp add: s2_def)
    have r1: "splitInternalNode s p =
                (if kOrder \<le> length pks + 1 then splitInternalNode s2 q
                 else Some (Completed s2))"
      using run nr insertInternalUpKey_found [OF B(1) at1] unfolding lk by simp
    have r2: "kOrder \<le> length pks + 1 \<longrightarrow> splitsInternal t key val s2 q"
      using splitsInternal.full [OF pr1 B(1) at1] unfolding lk by simp
    have r: "let s2 = s1\<lparr>heap := (heap s1)[q := BPlusInternalNode
                                  (take i pks @ upKey # drop i pks)
                                  (take (Suc i) pcs @ n # drop (Suc i) pcs)]\<rparr>
             in splitInternalNode s p =
                  (if kOrder \<le> length pks + 1 then splitInternalNode s2 q
                   else Some (Completed s2))
              \<and> (kOrder \<le> length pks + 1 \<longrightarrow> splitsInternal t key val s2 q)"
      unfolding Let_def using r1 r2 unfolding s2_def by (rule conjI)
    show ?thesis
      by (intro exI [of _ q] exI [of _ pks] exI [of _ pcs] exI [of _ i] conjI)
        (rule B(1-4) B(6-8) B(10) r)+
  qed
  have body: "let newInternal = n; upKey = upKey; s1 = s1
         in splitInternalHalves s p = Some (s1, upKey, newInternal)
          \<and> ks = take 2 ks @ upKey # drop 3 ks \<and> cs = take 3 cs @ drop 3 cs
          \<and> upKey \<notin> set (take 2 ks) \<and> upKey \<notin> set (drop 3 ks)
          \<and> insert_tree t key val = splitInternalNode s p
          \<and> (root s = Some p \<longrightarrow>
               splitInternalNode s p =
                 Some (Completed
                   (s1\<lparr>heap := heap s1 @ [BPlusInternalNode [upKey] [p, newInternal]],
                       root := Some (length (heap s1))\<rparr>)))
          \<and> (root s \<noteq> Some p \<longrightarrow>
               (\<exists>q pks pcs i. findParent (heap s1) (root s1) p = Some (Some q)
                  \<and> q < length (heap s1) \<and> heap s1 ! q = BPlusInternalNode pks pcs
                  \<and> length pcs = length pks + 1
                  \<and> i < length pcs \<and> pcs ! i = p \<and> p \<notin> set (take i pcs)
                  \<and> sorted_wrt (<) (take i pks @ upKey # drop i pks)
                  \<and> (let s2 = s1\<lparr>heap := (heap s1)[q := BPlusInternalNode
                                  (take i pks @ upKey # drop i pks)
                                  (take (Suc i) pcs @ newInternal # drop (Suc i) pcs)]\<rparr>
                     in splitInternalNode s p =
                          (if kOrder \<le> length pks + 1 then splitInternalNode s2 q
                           else Some (Completed s2))
                      \<and> (kOrder \<le> length pks + 1 \<longrightarrow> splitsInternal t key val s2 q))))"
    unfolding Let_def
    apply (intro conjI impI)
           apply (rule sp)
          apply (rule ksq)
         apply (rule csq)
        apply (rule up(1))
       apply (rule up(2))
      apply (rule path)
     apply (erule rootcase [rule_format])
    apply (drule inner)
    apply (simp only: Let_def)
    done
  show ?thesis
    apply (rule exI [of _ ks])
    apply (rule exI [of _ cs])
    apply (intro conjI)
        apply (rule cell(1))
       apply (rule cell(2))
      apply (rule len(1))
     apply (rule len(2))
    apply (rule body [unfolded n_def upKey_def s1_def])
    done
qed

lemma fifteen_inserts:
  "inserts emptyTree
       [(1, 10), (2, 20), (3, 30), (4, 40), (5, 50), (6, 60), (7, 70), (8, 80),
        (9, 90), (10, 100), (11, 110), (12, 120), (13, 130), (14, 140), (15, 150)] =
     Some \<lparr>heap = [BPlusLeafNode [1, 2] [10, 20] (Some 1),
                  BPlusLeafNode [3, 4] [30, 40] (Some 3),
                  BPlusInternalNode [3, 5] [0, 1, 3],
                  BPlusLeafNode [5, 6] [50, 60] (Some 4),
                  BPlusLeafNode [7, 8] [70, 80] (Some 5),
                  BPlusLeafNode [9, 10] [90, 100] (Some 8),
                  BPlusInternalNode [9, 11, 13] [4, 5, 8, 9],
                  BPlusInternalNode [7] [2, 6],
                  BPlusLeafNode [11, 12] [110, 120] (Some 9),
                  BPlusLeafNode [13, 14, 15] [130, 140, 150] None],
           root = Some 7\<rparr>"
  by code_simp

theorem internal_split_witness:
  "\<exists>t s. inserts emptyTree
       [(1, 10), (2, 20), (3, 30), (4, 40), (5, 50), (6, 60), (7, 70), (8, 80),
        (9, 90), (10, 100), (11, 110), (12, 120), (13, 130), (14, 140), (15, 150)] = Some t
      \<and> splitsInternal t 16 160 s 6 \<and> root s \<noteq> Some 6
      \<and> heap s ! 6 = BPlusInternalNode [9, 11, 13, 15] [4, 5, 8, 9, 10]
      \<and> insert_tree t 16 160 = splitInternalNode s 6
      \<and> splitInternalNode s 6 =
          Some (Completed
            \<lparr>heap = [BPlusLeafNode [1, 2] [10, 20] (Some 1),
                  BPlusLeafNode [3, 4] [30, 40] (Some 3),
                  BPlusInternalNode [3, 5] [0, 1, 3],
                  BPlusLeafNode [5, 6] [50, 60] (Some 4),
                  BPlusLeafNode [7, 8] [70, 80] (Some 5),
                  BPlusLeafNode [9, 10] [90, 100] (Some 8),
                  BPlusInternalNode [9, 11] [4, 5, 8],
                  BPlusInternalNode [7, 13] [2, 6, 11],
                  BPlusLeafNode [11, 12] [110, 120] (Some 9),
                  BPlusLeafNode [13, 14] [130, 140] (Some 10),
                  BPlusLeafNode [15, 16] [150, 160] None,
                  BPlusInternalNode [15] [9, 10]],
           root = Some 7\<rparr>)"
proof -
  let ?t = "\<lparr>heap = [BPlusLeafNode [1, 2] [10, 20] (Some 1),
                  BPlusLeafNode [3, 4] [30, 40] (Some 3),
                  BPlusInternalNode [3, 5] [0, 1, 3],
                  BPlusLeafNode [5, 6] [50, 60] (Some 4),
                  BPlusLeafNode [7, 8] [70, 80] (Some 5),
                  BPlusLeafNode [9, 10] [90, 100] (Some 8),
                  BPlusInternalNode [9, 11, 13] [4, 5, 8, 9],
                  BPlusInternalNode [7] [2, 6],
                  BPlusLeafNode [11, 12] [110, 120] (Some 9),
                  BPlusLeafNode [13, 14, 15] [130, 140, 150] None],
           root = Some 7\<rparr>"
  let ?u = "\<lparr>heap = [BPlusLeafNode [1, 2] [10, 20] (Some 1),
                  BPlusLeafNode [3, 4] [30, 40] (Some 3),
                  BPlusInternalNode [3, 5] [0, 1, 3],
                  BPlusLeafNode [5, 6] [50, 60] (Some 4),
                  BPlusLeafNode [7, 8] [70, 80] (Some 5),
                  BPlusLeafNode [9, 10] [90, 100] (Some 8),
                  BPlusInternalNode [9, 11, 13] [4, 5, 8, 9],
                  BPlusInternalNode [7] [2, 6],
                  BPlusLeafNode [11, 12] [110, 120] (Some 9),
                  BPlusLeafNode [13, 14] [130, 140] (Some 10),
                  BPlusLeafNode [15, 16] [150, 160] None],
           root = Some 7\<rparr>"
  let ?s = "\<lparr>heap = [BPlusLeafNode [1, 2] [10, 20] (Some 1),
                  BPlusLeafNode [3, 4] [30, 40] (Some 3),
                  BPlusInternalNode [3, 5] [0, 1, 3],
                  BPlusLeafNode [5, 6] [50, 60] (Some 4),
                  BPlusLeafNode [7, 8] [70, 80] (Some 5),
                  BPlusLeafNode [9, 10] [90, 100] (Some 8),
                  BPlusInternalNode [9, 11, 13, 15] [4, 5, 8, 9, 10],
                  BPlusInternalNode [7] [2, 6],
                  BPlusLeafNode [11, 12] [110, 120] (Some 9),
                  BPlusLeafNode [13, 14] [130, 140] (Some 10),
                  BPlusLeafNode [15, 16] [150, 160] None],
           root = Some 7\<rparr>"
  have pr: "promotes ?t 16 160 ?u 15 9 10"
  proof (rule promotes.leaf [where r = 7 and ks = "[13, 14, 15]" and vs = "[130, 140, 150]"
        and nx = None and ks' = "[13, 14, 15, 16]" and vs' = "[130, 140, 150, 160]"])
    show "root ?t = Some 7" by simp
    show "findLeaf ?t 16 = Some (Some 9)" by code_simp
    show "9 < length (heap ?t)" by simp
    show "heap ?t ! 9 = BPlusLeafNode [13, 14, 15] [130, 140, 150] None" by simp
    show "keyIndex [13, 14, 15] 16 = None" by simp
    show "bubble (length [13, 14, 15]) ([13, 14, 15] @ [16]) ([130, 140, 150] @ [160])
            = Some ([13, 14, 15, 16], [130, 140, 150, 160])"
      by code_simp
    show "kOrder \<le> length [13, 14, 15, 16 :: int]" by (simp add: kOrder_def)
    show "splitLeafHalves (?t\<lparr>heap := (heap ?t)[9 := BPlusLeafNode [13, 14, 15, 16]
                                                    [130, 140, 150, 160] None]\<rparr>) 9
            = Some (?u, 15, 10)"
      by code_simp
    show "Some 9 \<noteq> root ?u" by simp
  qed
  have sp: "splitsInternal ?t 16 160 ?s 6"
  proof (rule splitsInternal.full [OF pr])
    show "findParent (heap ?u) (root ?u) 9 = Some (Some 6)" by code_simp
    show "attach ?u 6 15 9 10 = Some ?s" by code_simp
    show "kOrder \<le> length (nodeKeys (heap ?s ! 6))" by (simp add: kOrder_def)
  qed
  have a: "insert_tree ?t 16 160 = splitInternalNode ?s 6"
    using internal_split [OF fifteen_inserts sp] unfolding Let_def by (elim exE conjE)
  have b: "root ?s \<noteq> Some 6" by simp
  have c: "heap ?s ! 6 = BPlusInternalNode [9, 11, 13, 15] [4, 5, 8, 9, 10]" by simp
  have d: "splitInternalNode ?s 6 =
          Some (Completed
            \<lparr>heap = [BPlusLeafNode [1, 2] [10, 20] (Some 1),
                  BPlusLeafNode [3, 4] [30, 40] (Some 3),
                  BPlusInternalNode [3, 5] [0, 1, 3],
                  BPlusLeafNode [5, 6] [50, 60] (Some 4),
                  BPlusLeafNode [7, 8] [70, 80] (Some 5),
                  BPlusLeafNode [9, 10] [90, 100] (Some 8),
                  BPlusInternalNode [9, 11] [4, 5, 8],
                  BPlusInternalNode [7, 13] [2, 6, 11],
                  BPlusLeafNode [11, 12] [110, 120] (Some 9),
                  BPlusLeafNode [13, 14] [130, 140] (Some 10),
                  BPlusLeafNode [15, 16] [150, 160] None,
                  BPlusInternalNode [15] [9, 10]],
           root = Some 7\<rparr>)"
    by code_simp
  show ?thesis
    apply (rule exI [of _ ?t])
    apply (rule exI [of _ ?s])
    apply (intro conjI)
         apply (rule fifteen_inserts)
        apply (rule sp)
       apply (rule b)
      apply (rule c)
     apply (rule a)
    apply (rule d)
    done
qed

end
